theory Spec2Isabelle
  imports Main "HOL-Library.Multiset"
begin

section \<open>Data model\<close>

text \<open>
  The program is the expansion of the generic header for \<^verbatim>\<open>BT_ELEM = int\<close>,
  \<^verbatim>\<open>BT_FACTOR = 2\<close> and the default comparison.

  \<^verbatim>\<open>
  struct bnode { uint32_t n; int elems[2*2+1]; struct bnode* children[2*2+2]; };
  struct bt    { struct bnode* root; size_t size; };
  \<close>

  A node pointer is modelled by the value it points to (\<open>None\<close> is \<^verbatim>\<open>NULL\<close>): the
  node graph is a tree, every node is reached through exactly one live child slot, so
  updating a child in place is rebuilding the parent around the new child. The arrays
  keep their full capacity, including the slots at and beyond \<open>n\<close> that the code leaves
  stale. Element values are \<open>int\<close>: the code only copies and compares them. The node
  count \<open>n\<close> and all indices are \<open>nat\<close>: every one of them is bounded by the array
  capacities checked below, so no machine arithmetic wraps.
\<close>

datatype bnode = Bnode (node_n: nat) (elems: "int list") (children: "bnode option list")

record bt =
  root :: "bnode option"
  size_bt :: nat

text \<open>What the C program does beyond returning: a failed \<^verbatim>\<open>assert\<close>, an access outside
  an array, a dereference of \<^verbatim>\<open>NULL\<close>.\<close>

datatype fault = Assert_failed | Out_of_bounds | Null_deref

definition factor :: nat where
  "factor = 2"

definition elems_cap :: nat where
  "elems_cap = 2 * factor + 1"

definition children_cap :: nat where
  "children_cap = 2 * factor + 2"

text \<open>\<^verbatim>\<open>calloc(1, sizeof(struct bnode))\<close>: all fields zero.\<close>

definition calloc_bnode :: bnode where
  "calloc_bnode = Bnode 0 (replicate elems_cap 0) (replicate children_cap None)"

text \<open>\<^verbatim>\<open>memcpy(dst + d, src + s, cnt * sizeof ...)\<close> on arrays as lists; \<^verbatim>\<open>memmove\<close>
  is the same with one array as source and destination (the source is read before the
  destination is written).\<close>

definition memcpy_list :: "'a list \<Rightarrow> nat \<Rightarrow> 'a list \<Rightarrow> nat \<Rightarrow> nat \<Rightarrow> 'a list" where
  "memcpy_list dst d src s cnt = take d dst @ take cnt (drop s src) @ drop (d + cnt) dst"

definition memmove_list :: "'a list \<Rightarrow> nat \<Rightarrow> nat \<Rightarrow> nat \<Rightarrow> 'a list" where
  "memmove_list xs d s cnt = memcpy_list xs d xs s cnt"

section \<open>Comparison and search within a node\<close>

definition bt_default_cmp :: "int \<Rightarrow> int \<Rightarrow> int" where
  "bt_default_cmp a b = (if a > b then 1 else if a < b then - 1 else 0)"

text \<open>
  The \<^verbatim>\<open>do ... while (cmp && left < right)\<close> loop of \<^verbatim>\<open>bt_node_bsearch\<close>. One call is
  one pass through the body; the result is the loop's final \<open>left\<close>, \<open>right\<close>, \<open>mid\<close>
  and \<open>cmp\<close>. The last component is a ghost trace: the indices at which \<open>elems\<close> was
  read, in order. \<open>right - left\<close> is never taken with \<open>right < left\<close>: the first pass
  has \<open>left = 0\<close> and every later pass is entered with \<open>left < right\<close>.
\<close>

function bsearch_loop ::
  "bnode \<Rightarrow> int \<Rightarrow> nat \<Rightarrow> nat \<Rightarrow> nat list \<Rightarrow> fault + (nat \<times> nat \<times> nat \<times> int \<times> nat list)" where
  "bsearch_loop node elem left right reads =
     (let mid = left + (right - left) div 2 in
      if length (elems node) \<le> mid then Inl Out_of_bounds
      else
        let cmp = bt_default_cmp elem (elems node ! mid);
            left' = (if cmp > 0 then mid + 1 else left);
            right' = (if cmp > 0 then right else if cmp < 0 then mid else right)
        in if cmp \<noteq> 0 \<and> left' < right'
           then bsearch_loop node elem left' right' (reads @ [mid])
           else Inr (left', right', mid, cmp, reads @ [mid]))"
  by pat_completeness auto
termination
proof (relation "measure (\<lambda>(node, elem, left, right, reads). right - left)")
  fix node :: bnode and elem :: int and left right mid :: nat and reads :: "nat list"
    and cmp :: int and left' right' :: nat
  assume mid: "mid = left + (right - left) div 2"
    and left': "left' = (if 0 < cmp then mid + 1 else left)"
    and right': "right' = (if 0 < cmp then right else if cmp < 0 then mid else right)"
    and continue: "cmp \<noteq> 0 \<and> left' < right'"
  have "left \<le> mid" and "left < right \<longrightarrow> mid < right" and "right \<le> left \<longrightarrow> mid = left"
    using mid by simp_all presburger
  with left' right' continue have "right' - left' < right - left"
    by (cases "0 < cmp") (auto split: if_splits)
  then show "((node, elem, left', right', reads @ [mid]), (node, elem, left, right, reads))
      \<in> measure (\<lambda>(node, elem, left, right, reads). right - left)"
    by simp
qed simp

declare bsearch_loop.simps [simp del]

text \<open>The indices of \<open>elems\<close> read by \<^verbatim>\<open>bt_node_bsearch(node, &elem)\<close>.\<close>

definition bsearch_reads :: "bnode \<Rightarrow> int \<Rightarrow> fault + nat list" where
  "bsearch_reads node elem =
     (case bsearch_loop node elem 0 (node_n node) [] of
        Inl e \<Rightarrow> Inl e
      | Inr (left, right, mid, cmp, reads) \<Rightarrow> Inr reads)"

definition bt_node_bsearch :: "bnode \<Rightarrow> int \<Rightarrow> fault + int" where
  "bt_node_bsearch node elem =
     (case bsearch_loop node elem 0 (node_n node) [] of
        Inl e \<Rightarrow> Inl e
      | Inr (left, right, mid, cmp, reads) \<Rightarrow>
          if cmp = 0 then Inr (int mid)
          else if left \<noteq> right then Inl Assert_failed
          else Inr (- int left - 1))"


section \<open>Lookup\<close>

text \<open>
  A pointer into a node's \<open>elems\<close> array (\<^verbatim>\<open>cur->elems + idx\<close>) is the node and the
  index; dereferencing reads that slot.
\<close>

datatype elem_ref = Elem_ref (ref_node: bnode) (ref_idx: nat)

definition deref :: "elem_ref \<Rightarrow> int" where
  "deref r = elems (ref_node r) ! ref_idx r"

lemma size_child:
  assumes "j < length (children c)" and "children c ! j = Some c'"
  shows "size c' < size c"
proof -
  have "Some c' \<in> set (children c)"
    using assms by (metis nth_mem)
  then have "size_option size (Some c') \<le> size_list (size_option size) (children c)"
    by (rule size_list_estimation') simp
  then show ?thesis
    by (cases c) simp
qed

text \<open>
  The \<^verbatim>\<open>while (cur)\<close> loop of \<^verbatim>\<open>bt_lookup_node\<close>. The out-parameter \<^verbatim>\<open>node\<close> is
  \<open>None\<close> for a \<^verbatim>\<open>NULL\<close> pointer and \<open>Some v\<close> for a pointer to a cell holding \<open>v\<close>; the
  cell's final content is returned with the result.
\<close>

function lookup_loop ::
  "bnode option \<Rightarrow> int \<Rightarrow> bnode option option \<Rightarrow> fault + (elem_ref option \<times> bnode option option)" where
  "lookup_loop cur elem node =
     (case cur of
        None \<Rightarrow> Inr (None, node)
      | Some c \<Rightarrow>
          (let node' = (case node of None \<Rightarrow> None | Some v \<Rightarrow> Some cur) in
           case bt_node_bsearch c elem of
             Inl e \<Rightarrow> Inl e
           | Inr idx \<Rightarrow>
               if idx \<ge> 0 then Inr (Some (Elem_ref c (nat idx)), node')
               else if length (children c) \<le> nat (- idx - 1) then Inl Out_of_bounds
               else lookup_loop (children c ! nat (- idx - 1)) elem node'))"
  by pat_completeness auto
termination
proof (relation "measure (\<lambda>(cur, elem, node). size_option size cur)")
  fix cur :: "bnode option" and elem :: int and node node' :: "bnode option option"
    and c :: bnode and idx :: int
  assume "cur = Some c" and "\<not> length (children c) \<le> nat (- idx - 1)"
  then show "((children c ! nat (- idx - 1), elem, node'), (cur, elem, node))
      \<in> measure (\<lambda>(cur, elem, node). size_option size cur)"
    using size_child [of "nat (- idx - 1)" c]
    by (cases "children c ! nat (- idx - 1)"; cases c) simp_all
qed simp

declare lookup_loop.simps [simp del]

definition bt_lookup_node ::
  "bt \<Rightarrow> int \<Rightarrow> bnode option option \<Rightarrow> fault + (elem_ref option \<times> bnode option option)" where
  "bt_lookup_node bt elem node = lookup_loop (root bt) elem node"

definition bt_lookup :: "bt \<Rightarrow> int \<Rightarrow> fault + elem_ref option" where
  "bt_lookup bt elem =
     (case bt_lookup_node bt elem None of
        Inl e \<Rightarrow> Inl e
      | Inr (r, node) \<Rightarrow> Inr r)"

section \<open>Construction, split and insertion\<close>

text \<open>\<^verbatim>\<open>(struct bt) { .root = NULL }\<close>: the fields not named are zero.\<close>

definition bt_mk :: bt where
  "bt_mk = \<lparr>root = None, size_bt = 0\<rparr>"

text \<open>
  \<^verbatim>\<open>bt_split_node(parent, idx)\<close> returns the parent as it is after the call, and the
  promoted element. The checks are the program's faults in the order it would meet them:
  the read of \<^verbatim>\<open>parent->children[idx]\<close>, the \<^verbatim>\<open>memmove\<close> of
  \<^verbatim>\<open>parent->n - idx\<close> pointers (an unsigned difference, huge when \<open>idx > n\<close>), the
  dereference of \<^verbatim>\<open>child\<close>. The child keeps its upper keys and children in place:
  only its \<open>n\<close> changes.
\<close>

definition bt_split_node :: "bnode \<Rightarrow> nat \<Rightarrow> fault + (bnode \<times> int)" where
  "bt_split_node parent idx =
     (if length (children parent) \<le> idx then Inl Out_of_bounds
      else if node_n parent < idx
              \<or> length (children parent) < idx + 2 + (node_n parent - idx) then Inl Out_of_bounds
      else
        case children parent ! idx of
          None \<Rightarrow> Inl Null_deref
        | Some child \<Rightarrow>
            if length (elems child) < 2 * factor + 1
               \<or> length (children child) < 2 * factor + 2 then Inl Out_of_bounds
            else
              let moved = memmove_list (children parent) (idx + 2) (idx + 1) (node_n parent - idx);
                  sib_elems = memcpy_list (elems calloc_bnode) 0 (elems child) (factor + 1) factor;
                  sib_children =
                    (if children child ! 0 \<noteq> None
                     then memcpy_list (children calloc_bnode) 0 (children child) (factor + 1) (factor + 1)
                     else children calloc_bnode);
                  sib = Bnode factor sib_elems sib_children;
                  child' = Bnode factor (elems child) (children child)
              in Inr (Bnode (node_n parent) (elems parent)
                        (moved[idx + 1 := Some sib, idx := Some child']),
                      elems child ! factor))"

text \<open>
  The tail of \<^verbatim>\<open>bt_node_insert\<close>, reached by a leaf and after a split: shift the keys
  from \<open>idx\<close> one slot right, store \<open>elem\<close>, increment \<open>n\<close>, return \<^verbatim>\<open>false\<close>.
\<close>

definition node_insert_at ::
  "bnode \<Rightarrow> nat \<Rightarrow> int \<Rightarrow> int option \<Rightarrow> fault + (bnode \<times> bool \<times> int option)" where
  "node_insert_at node idx elem prev =
     (if node_n node < idx \<or> length (elems node) < idx + 1 + (node_n node - idx)
      then Inl Out_of_bounds
      else Inr (Bnode (node_n node + 1)
                  ((memmove_list (elems node) (idx + 1) idx (node_n node - idx))[idx := elem])
                  (children node),
                False, prev))"

text \<open>
  \<^verbatim>\<open>bt_node_insert(node, elem, prev)\<close> returns the node as it is after the call, the
  boolean result and the content of the cell \<^verbatim>\<open>prev\<close> points to (\<open>None\<close> when \<^verbatim>\<open>prev\<close>
  is \<^verbatim>\<open>NULL\<close>). The child is updated in place, so the parent holds the new child
  whatever happens next.
\<close>

function bt_node_insert ::
  "bnode \<Rightarrow> int \<Rightarrow> int option \<Rightarrow> fault + (bnode \<times> bool \<times> int option)" where
  "bt_node_insert node elem prev =
     (case bt_node_bsearch node elem of
        Inl e \<Rightarrow> Inl e
      | Inr idx \<Rightarrow>
          if idx \<ge> 0 then
            Inr (Bnode (node_n node) ((elems node)[nat idx := elem]) (children node),
                 True,
                 (case prev of None \<Rightarrow> None | Some v \<Rightarrow> Some (elems node ! nat idx)))
          else if length (children node) \<le> nat (- idx - 1) then Inl Out_of_bounds
          else
            (case children node ! nat (- idx - 1) of
               None \<Rightarrow> node_insert_at node (nat (- idx - 1)) elem prev
             | Some child \<Rightarrow>
                 (case bt_node_insert child elem prev of
                    Inl e \<Rightarrow> Inl e
                  | Inr (child', replaced, prev') \<Rightarrow>
                      (let node1 = Bnode (node_n node) (elems node)
                                     ((children node)[nat (- idx - 1) := Some child'])
                       in if node_n child' \<le> 2 * factor then Inr (node1, replaced, prev')
                          else
                            (case bt_split_node node1 (nat (- idx - 1)) of
                               Inl e \<Rightarrow> Inl e
                             | Inr (node2, promoted) \<Rightarrow>
                                 node_insert_at node2 (nat (- idx - 1)) promoted prev')))))"
  by pat_completeness auto
termination
proof (relation "measure (\<lambda>(node, elem, prev). size node)")
  fix node child :: bnode and elem idx :: int and prev :: "int option"
  assume "\<not> length (children node) \<le> nat (- idx - 1)"
    and "children node ! nat (- idx - 1) = Some child"
  then show "((child, elem, prev), (node, elem, prev)) \<in> measure (\<lambda>(node, elem, prev). size node)"
    using size_child [of "nat (- idx - 1)" node child] by simp
qed simp

declare bt_node_insert.simps [simp del]

text \<open>
  \<^verbatim>\<open>bt_insert(bt, elem, prev)\<close>. The field \<^verbatim>\<open>size\<close> is not assigned anywhere in the
  program.
\<close>

definition bt_insert :: "bt \<Rightarrow> int \<Rightarrow> int option \<Rightarrow> fault + (bt \<times> bool \<times> int option)" where
  "bt_insert bt elem prev =
     (case (case root bt of
              None \<Rightarrow> Inr (None, False, prev)
            | Some r \<Rightarrow>
                (case bt_node_insert r elem prev of
                   Inl e \<Rightarrow> Inl e
                 | Inr (r', replaced, prev') \<Rightarrow> Inr (Some r', replaced, prev'))) of
        Inl e \<Rightarrow> Inl e
      | Inr (root1, replaced, prev') \<Rightarrow>
          (case root1 of
             None \<Rightarrow>
               Inr (bt\<lparr>root := Some (Bnode 1 ((elems calloc_bnode)[0 := elem])
                                     ((children calloc_bnode)[0 := None]))\<rparr>,
                    replaced, prev')
           | Some r \<Rightarrow>
               if node_n r > 2 * factor then
                 (case bt_split_node
                         (Bnode 1 (elems calloc_bnode) ((children calloc_bnode)[0 := Some r])) 0 of
                    Inl e \<Rightarrow> Inl e
                  | Inr (new_root, promoted) \<Rightarrow>
                      Inr (bt\<lparr>root := Some (Bnode (node_n new_root)
                                            ((elems new_root)[0 := promoted])
                                            (children new_root))\<rparr>,
                           replaced, prev'))
               else Inr (bt\<lparr>root := Some r\<rparr>, replaced, prev')))"

text \<open>A sequence of \<^verbatim>\<open>bt_insert\<close> calls, each with its element and its \<^verbatim>\<open>prev\<close> cell,
  stopping at the first fault.\<close>

fun bt_insert_calls :: "bt \<Rightarrow> (int \<times> int option) list \<Rightarrow> fault + bt" where
  "bt_insert_calls bt [] = Inr bt"
| "bt_insert_calls bt ((elem, prev) # calls) =
     (case bt_insert bt elem prev of
        Inl e \<Rightarrow> Inl e
      | Inr (bt', replaced, prev') \<Rightarrow> bt_insert_calls bt' calls)"


section \<open>The in-order iterator\<close>

text \<open>
  \<^verbatim>\<open>
  struct bt_iter_frame { size_t i; struct bnode* node; };
  struct bt_iter_dfs   { size_t top; struct bt_iter_frame stack[32]; };
  \<close>
  The frame pointer \<^verbatim>\<open>fp\<close> is the index of its frame in \<open>stack\<close>.
\<close>

datatype bt_iter_frame = Frame (frame_i: nat) (frame_node: "bnode option")

record bt_iter_dfs =
  iter_top :: nat
  iter_stack :: "bt_iter_frame list"

definition iter_stack_size :: nat where
  "iter_stack_size = 32"

definition bt_iter_dfs_mk :: "bt \<Rightarrow> bt_iter_dfs" where
  "bt_iter_dfs_mk btree =
     \<lparr>iter_top = 1,
      iter_stack = Frame 0 (root btree) # replicate (iter_stack_size - 1) (Frame 0 None)\<rparr>"

text \<open>
  The \<^verbatim>\<open>while (true)\<close> loop of \<^verbatim>\<open>bt_iter_dfs_next\<close>, one call per pass, on the
  iterator, the frame pointer and \<^verbatim>\<open>visited_child\<close>. It returns the pointer the call
  returns (\<open>None\<close> for \<^verbatim>\<open>NULL\<close>) and the iterator as the call leaves it. Reading or
  writing a frame outside the stack array is the fault \<open>Out_of_bounds\<close>. The loop is
  entered with \<open>fp = top - 1\<close> and keeps it so, hence \<open>top - 1\<close> is never taken at
  \<open>top = 0\<close>.
\<close>

function iter_next_loop ::
  "bt_iter_dfs \<Rightarrow> nat \<Rightarrow> bool \<Rightarrow> fault + (elem_ref option \<times> bt_iter_dfs)" where
  "iter_next_loop iter fp visited_child =
     (if length (iter_stack iter) \<le> fp then Inl Out_of_bounds
      else
        case frame_node (iter_stack iter ! fp) of
          None \<Rightarrow> Inr (None, iter)
        | Some nd \<Rightarrow>
            let i = frame_i (iter_stack iter ! fp) in
            if i > node_n nd then
              (if iter_top iter = 1 then Inr (None, iter)
               else if fp = 0 then Inl Out_of_bounds
               else iter_next_loop (iter\<lparr>iter_top := iter_top iter - 1\<rparr>) (fp - 1) True)
            else if length (children nd) \<le> i then Inl Out_of_bounds
            else if children nd ! i \<noteq> None \<and> \<not> visited_child then
              (if length (iter_stack iter) \<le> fp + 1 then Inl Out_of_bounds
               else iter_next_loop
                      (iter\<lparr>iter_top := iter_top iter + 1,
                            iter_stack := (iter_stack iter)[fp + 1 := Frame 0 (children nd ! i)]\<rparr>)
                      (fp + 1) False)
            else if i < node_n nd then
              Inr (Some (Elem_ref nd i),
                   iter\<lparr>iter_stack := (iter_stack iter)[fp := Frame (i + 1) (Some nd)]\<rparr>)
            else
              iter_next_loop
                (iter\<lparr>iter_stack := (iter_stack iter)[fp := Frame (i + 1) (Some nd)]\<rparr>)
                fp visited_child)"
  by pat_completeness auto
termination
proof (relation "measures
    [\<lambda>(iter, fp, visited_child). if visited_child then 0 else 1,
     \<lambda>(iter, fp, visited_child).
        if visited_child then fp else size_option size (frame_node (iter_stack iter ! fp)),
     \<lambda>(iter, fp, visited_child).
        case frame_node (iter_stack iter ! fp) of
          None \<Rightarrow> 0
        | Some nd \<Rightarrow> node_n nd + 1 - frame_i (iter_stack iter ! fp)]")
  fix iter :: bt_iter_dfs and fp i :: nat and visited_child :: bool and nd :: bnode
  assume fp: "\<not> length (iter_stack iter) \<le> fp"
    and nd: "frame_node (iter_stack iter ! fp) = Some nd"
    and i: "i = frame_i (iter_stack iter ! fp)"
    and "\<not> node_n nd < i" and inb: "\<not> length (children nd) \<le> i"
    and push: "children nd ! i \<noteq> None \<and> \<not> visited_child"
    and room: "\<not> length (iter_stack iter) \<le> fp + 1"
  from push obtain c where c: "children nd ! i = Some c" by auto
  then have "size c < size nd"
    using inb size_child [of i nd c] by simp
  then show "((iter\<lparr>iter_top := iter_top iter + 1,
                  iter_stack := (iter_stack iter)[fp + 1 := Frame 0 (children nd ! i)]\<rparr>,
              fp + 1, False), (iter, fp, visited_child)) \<in> measures
    [\<lambda>(iter, fp, visited_child). if visited_child then 0 else 1,
     \<lambda>(iter, fp, visited_child).
        if visited_child then fp else size_option size (frame_node (iter_stack iter ! fp)),
     \<lambda>(iter, fp, visited_child).
        case frame_node (iter_stack iter ! fp) of
          None \<Rightarrow> 0
        | Some nd \<Rightarrow> node_n nd + 1 - frame_i (iter_stack iter ! fp)]"
    using fp nd push c room by simp
qed (auto split: option.splits)

declare iter_next_loop.simps [simp del]

definition bt_iter_dfs_next :: "bt_iter_dfs \<Rightarrow> fault + (elem_ref option \<times> bt_iter_dfs)" where
  "bt_iter_dfs_next iter =
     (if iter_top iter = 0 then Inl Out_of_bounds
      else iter_next_loop iter (iter_top iter - 1) False)"

text \<open>\<open>k\<close> successive calls of \<^verbatim>\<open>bt_iter_dfs_next\<close> on one iterator: the pointers
  returned, in order, and the iterator afterwards.\<close>

fun iter_nexts :: "nat \<Rightarrow> bt_iter_dfs \<Rightarrow> fault + (elem_ref option list \<times> bt_iter_dfs)" where
  "iter_nexts 0 iter = Inr ([], iter)"
| "iter_nexts (Suc k) iter =
     (case bt_iter_dfs_next iter of
        Inl e \<Rightarrow> Inl e
      | Inr (r, iter') \<Rightarrow>
          (case iter_nexts k iter' of
             Inl e \<Rightarrow> Inl e
           | Inr (rs, iter'') \<Rightarrow> Inr (r # rs, iter'')))"

text \<open>The elements behind the pointers that \<open>k\<close> successive calls return.\<close>

definition iter_values :: "nat \<Rightarrow> bt_iter_dfs \<Rightarrow> fault + int option list" where
  "iter_values k iter =
     (case iter_nexts k iter of
        Inl e \<Rightarrow> Inl e
      | Inr (rs, iter') \<Rightarrow> Inr (map (map_option deref) rs))"

section \<open>Specification vocabulary\<close>

text \<open>The live part of a node's key array: its first \<open>n\<close> keys.\<close>

definition keys :: "bnode \<Rightarrow> int list" where
  "keys node = take (node_n node) (elems node)"

text \<open>The arrays have the capacity their C types give them.\<close>

definition layout :: "bnode \<Rightarrow> bool" where
  "layout node = (length (elems node) = elems_cap \<and> length (children node) = children_cap)"

text \<open>The child slot \<open>i\<close> of a node; a slot outside the array holds nothing.\<close>

definition child_at :: "bnode \<Rightarrow> nat \<Rightarrow> bnode option" where
  "child_at node i = (if i < length (children node) then children node ! i else None)"

lemma size_child_at:
  assumes "child_at node i = Some t"
  shows "size t < size node"
  using assms size_child [of i node t] by (simp add: child_at_def split: if_splits)

text \<open>
  The keys of a subtree in order: the subtree at slot \<open>0\<close>, key \<open>0\<close>, the subtree at
  slot \<open>1\<close>, key \<open>1\<close>, ..., the subtree at slot \<open>n\<close>.
\<close>

function inorder :: "bnode \<Rightarrow> int list" where
  "inorder node =
     concat (map (\<lambda>i. (case child_at node i of None \<Rightarrow> [] | Some t \<Rightarrow> inorder t) @ [elems node ! i])
               [0..<node_n node])
     @ (case child_at node (node_n node) of None \<Rightarrow> [] | Some t \<Rightarrow> inorder t)"
  by pat_completeness auto
termination
  by (relation "measure size") (auto dest: size_child_at)

declare inorder.simps [simp del]

definition inorder_opt :: "bnode option \<Rightarrow> int list" where
  "inorder_opt c = (case c of None \<Rightarrow> [] | Some t \<Rightarrow> inorder t)"

text \<open>All nodes of a subtree, the root of the subtree first.\<close>

function nodes :: "bnode \<Rightarrow> bnode list" where
  "nodes node =
     node # concat (map (\<lambda>i. case child_at node i of None \<Rightarrow> [] | Some t \<Rightarrow> nodes t)
                      [0..<Suc (node_n node)])"
  by pat_completeness auto
termination
  by (relation "measure size") (auto dest: size_child_at)

declare nodes.simps [simp del]

text \<open>The program's test for a leaf is \<^verbatim>\<open>children[0] == NULL\<close>. The height of a subtree
  is the number of edges from its root down its leftmost path to a leaf.\<close>

function height :: "bnode \<Rightarrow> nat" where
  "height node = (case child_at node 0 of None \<Rightarrow> 0 | Some c \<Rightarrow> Suc (height c))"
  by pat_completeness auto
termination
  by (relation "measure size") (auto dest: size_child_at)

declare height.simps [simp del]

text \<open>The depths, below a node, of the leaves of its subtree.\<close>

function leaf_depths :: "bnode \<Rightarrow> nat list" where
  "leaf_depths node =
     (if child_at node 0 = None then [0]
      else concat (map (\<lambda>i. case child_at node i of None \<Rightarrow> [] | Some t \<Rightarrow> map Suc (leaf_depths t))
                     [0..<Suc (node_n node)]))"
  by pat_completeness auto
termination
  by (relation "measure size") (auto dest: size_child_at)

declare leaf_depths.simps [simp del]

subsection \<open>The invariants as the specification words them\<close>

definition keys_increasing :: "bnode \<Rightarrow> bool" where
  "keys_increasing node = sorted_wrt (\<lambda>a b. bt_default_cmp a b < 0) (keys node)"

definition ranges_ok :: "bnode \<Rightarrow> bool" where
  "ranges_ok node =
     (\<forall>i \<in> {0..<node_n node}.
        (\<forall>k \<in> set (inorder_opt (child_at node i)). bt_default_cmp k (elems node ! i) < 0)
      \<and> (\<forall>k \<in> set (inorder_opt (child_at node (i + 1))). bt_default_cmp k (elems node ! i) > 0))"

definition btree_invariants :: "bnode \<Rightarrow> bool" where
  "btree_invariants r =
     ((\<forall>node \<in> set (nodes r). keys_increasing node \<and> ranges_ok node)
      \<and> (\<forall>d \<in> set (leaf_depths r). d = height r)
      \<and> (\<forall>node \<in> set (tl (nodes r)). factor \<le> node_n node \<and> node_n node \<le> 2 * factor)
      \<and> node_n r \<le> 2 * factor)"

subsection \<open>The invariant the proofs carry\<close>

text \<open>
  \<open>shape lo hi h node\<close>: \<open>node\<close> is the root of a subtree of height \<open>h\<close> whose own key
  count is between \<open>lo\<close> and \<open>hi\<close>, and whose other nodes hold between \<open>factor\<close> and
  \<open>2 * factor\<close> keys. A leaf has every child slot \<^verbatim>\<open>NULL\<close>, the stale ones included; an
  inner node has a child in each of its \<open>n + 1\<close> live slots.
\<close>

fun shape :: "nat \<Rightarrow> nat \<Rightarrow> nat \<Rightarrow> bnode \<Rightarrow> bool" where
  "shape lo hi 0 node =
     (layout node \<and> lo \<le> node_n node \<and> node_n node \<le> hi
      \<and> children node = replicate children_cap None)"
| "shape lo hi (Suc h) node =
     (layout node \<and> lo \<le> node_n node \<and> node_n node \<le> hi
      \<and> (\<forall>i \<in> {0..node_n node}.
            case child_at node i of None \<Rightarrow> False | Some t \<Rightarrow> shape factor (2 * factor) h t))"

definition bt_inv :: "bt \<Rightarrow> bool" where
  "bt_inv bt =
     (case root bt of
        None \<Rightarrow> True
      | Some r \<Rightarrow> shape 1 (2 * factor) (height r) r \<and> sorted_wrt (<) (inorder r))"

text \<open>The in-order sequence of a node around its slot \<open>p\<close>: what comes before the
  subtree at \<open>p\<close> and what comes after it.\<close>

definition left_part :: "(nat \<Rightarrow> 'a list) \<Rightarrow> (nat \<Rightarrow> 'a) \<Rightarrow> nat \<Rightarrow> 'a list" where
  "left_part sub key p = concat (map (\<lambda>i. sub i @ [key i]) [0..<p])"

definition right_part :: "(nat \<Rightarrow> 'a list) \<Rightarrow> (nat \<Rightarrow> 'a) \<Rightarrow> nat \<Rightarrow> nat \<Rightarrow> 'a list" where
  "right_part sub key p n = concat (map (\<lambda>i. key i # sub (Suc i)) [p..<n])"

definition sub_of :: "bnode \<Rightarrow> nat \<Rightarrow> int list" where
  "sub_of node i = inorder_opt (child_at node i)"

definition key_of :: "bnode \<Rightarrow> nat \<Rightarrow> int" where
  "key_of node i = elems node ! i"

text \<open>The keys stored in a tree, in order.\<close>

definition bt_keys :: "bt \<Rightarrow> int list" where
  "bt_keys bt = inorder_opt (root bt)"

text \<open>The nodes of a tree.\<close>

definition bt_nodes :: "bt \<Rightarrow> bnode list" where
  "bt_nodes bt = (case root bt of None \<Rightarrow> [] | Some r \<Rightarrow> nodes r)"

text \<open>All keys held in the key arrays of the nodes of a tree, node by node.\<close>

definition stored_keys :: "bt \<Rightarrow> int list" where
  "stored_keys bt = concat (map keys (bt_nodes bt))"

text \<open>The values of the C type \<^verbatim>\<open>int\<close>, taken as 32 bits wide.\<close>

definition c_int :: "int \<Rightarrow> bool" where
  "c_int x = (- (2 ^ 31) \<le> x \<and> x < 2 ^ 31)"

subsection \<open>What an iterator has still to yield\<close>

text \<open>
  A frame \<open>(i, node)\<close> below the top of the stack is waiting for the subtree at slot \<open>i\<close>
  to finish: what it still yields is key \<open>i\<close>, the subtree at \<open>i + 1\<close>, and so on. The
  top frame at the start of a call has not entered the subtree at slot \<open>i\<close> yet.
\<close>

definition after_frame :: "bt_iter_frame \<Rightarrow> int list" where
  "after_frame fr =
     (case frame_node fr of
        None \<Rightarrow> []
      | Some nd \<Rightarrow> right_part (sub_of nd) (key_of nd) (frame_i fr) (node_n nd))"

definition from_frame :: "bt_iter_frame \<Rightarrow> int list" where
  "from_frame fr =
     (case frame_node fr of
        None \<Rightarrow> []
      | Some nd \<Rightarrow>
          if frame_i fr \<le> node_n nd
          then sub_of nd (frame_i fr) @ right_part (sub_of nd) (key_of nd) (frame_i fr) (node_n nd)
          else [])"

fun below_frames :: "bt_iter_frame list \<Rightarrow> nat \<Rightarrow> int list" where
  "below_frames st 0 = []"
| "below_frames st (Suc k) = after_frame (st ! k) @ below_frames st k"

definition remaining :: "bt_iter_dfs \<Rightarrow> nat \<Rightarrow> bool \<Rightarrow> int list" where
  "remaining iter fp v =
     (if v then after_frame (iter_stack iter ! fp) else from_frame (iter_stack iter ! fp))
     @ below_frames (iter_stack iter) fp"

text \<open>A frame at index \<open>k\<close> of a stack of \<open>cap\<close> frames holds a well-formed subtree that
  is low enough for the frames of its descendants to fit above it.\<close>

definition frame_ok :: "nat \<Rightarrow> nat \<Rightarrow> bt_iter_frame \<Rightarrow> bool" where
  "frame_ok cap k fr =
     (case frame_node fr of
        None \<Rightarrow> False
      | Some nd \<Rightarrow> shape 1 (2 * factor) (height nd) nd \<and> k + height nd < cap)"

definition iter_ok :: "bt_iter_dfs \<Rightarrow> nat \<Rightarrow> bool" where
  "iter_ok iter fp =
     (fp + 1 = iter_top iter \<and> fp < length (iter_stack iter)
      \<and> (\<forall>k \<in> {0..fp}. frame_ok (length (iter_stack iter)) k (iter_stack iter ! k)))"

text \<open>All keys held in the key arrays of the nodes of a subtree.\<close>

definition node_keys :: "bnode \<Rightarrow> int list" where
  "node_keys node = concat (map keys (nodes node))"

section \<open>Properties of the search within a node\<close>



lemma bsearch_loop_safe:
  assumes "left < right" and "right \<le> node_n node" and "node_n node \<le> length (elems node)"
  shows "\<exists>l r m c rs. bsearch_loop node elem left right reads = Inr (l, r, m, c, rs)
           \<and> (c \<noteq> 0 \<longrightarrow> l = r) \<and> m < node_n node
           \<and> set rs \<subseteq> set reads \<union> {..<node_n node}"
  using assms
proof (induction node elem left right reads rule: bsearch_loop.induct)
  case (1 node elem left right reads)
  define mid where "mid = left + (right - left) div 2"
  define cmp where "cmp = bt_default_cmp elem (elems node ! mid)"
  define left' where "left' = (if cmp > 0 then mid + 1 else left)"
  define right' where "right' = (if cmp > 0 then right else if cmp < 0 then mid else right)"
  have mid: "left \<le> mid" "mid < right"
    using "1.prems"(1) by (simp_all add: mid_def)
  then have inb: "\<not> length (elems node) \<le> mid" and midn: "mid < node_n node"
    using "1.prems" by simp_all
  have unfold: "bsearch_loop node elem left right reads =
      (if cmp \<noteq> 0 \<and> left' < right' then bsearch_loop node elem left' right' (reads @ [mid])
       else Inr (left', right', mid, cmp, reads @ [mid]))"
    using inb unfolding left'_def right'_def cmp_def mid_def
    by (subst bsearch_loop.simps) (simp add: Let_def)
  show ?case
  proof (cases "cmp \<noteq> 0 \<and> left' < right'")
    case True
    have "right' \<le> node_n node"
      using mid "1.prems" by (simp add: right'_def)
    from "1.IH" [OF mid_def inb cmp_def left'_def right'_def True True[THEN conjunct2] this "1.prems"(3)]
    obtain l r m c rs where
      res: "bsearch_loop node elem left' right' (reads @ [mid]) = Inr (l, r, m, c, rs)"
      and props: "c \<noteq> 0 \<longrightarrow> l = r" "m < node_n node"
        "set rs \<subseteq> set (reads @ [mid]) \<union> {..<node_n node}"
      by blast
    have "bsearch_loop node elem left right reads = Inr (l, r, m, c, rs)"
      unfolding unfold using res by (simp only: if_P [OF True])
    then show ?thesis using props midn by auto
  next
    case False
    have eq: "bsearch_loop node elem left right reads = Inr (left', right', mid, cmp, reads @ [mid])"
      unfolding unfold by (rule if_not_P [OF False])
    have "cmp \<noteq> 0 \<longrightarrow> left' = right'"
      using False mid by (auto simp: left'_def right'_def split: if_splits)
    then show ?thesis using eq midn by auto
  qed
qed

lemma keys_nth_mono:
  assumes "sorted_wrt (<) (keys node)" and "node_n node \<le> length (elems node)"
    and "i < j" and "j < node_n node"
  shows "elems node ! i < elems node ! j"
proof -
  have "keys node ! i < keys node ! j"
    using assms sorted_wrt_nth_less [of "(<)" "keys node" i j] by (simp add: keys_def)
  then show ?thesis using assms by (simp add: keys_def)
qed

lemma bsearch_loop_sorted:
  assumes "left < right" and "right \<le> node_n node" and "node_n node \<le> length (elems node)"
    and "sorted_wrt (<) (keys node)"
    and "\<forall>i<left. elems node ! i < elem"
    and "\<forall>i. right \<le> i \<and> i < node_n node \<longrightarrow> elem < elems node ! i"
  shows "\<exists>l r m c rs. bsearch_loop node elem left right reads = Inr (l, r, m, c, rs)
           \<and> m < node_n node \<and> (c = 0 \<longrightarrow> elems node ! m = elem)
           \<and> (c \<noteq> 0 \<longrightarrow> l = r \<and> l \<le> node_n node
                 \<and> (\<forall>i<l. elems node ! i < elem)
                 \<and> (\<forall>i. l \<le> i \<and> i < node_n node \<longrightarrow> elem < elems node ! i))"
  using assms
proof (induction node elem left right reads rule: bsearch_loop.induct)
  case (1 node elem left right reads)
  define mid where "mid = left + (right - left) div 2"
  define cmp where "cmp = bt_default_cmp elem (elems node ! mid)"
  define left' where "left' = (if cmp > 0 then mid + 1 else left)"
  define right' where "right' = (if cmp > 0 then right else if cmp < 0 then mid else right)"
  have mid: "left \<le> mid" "mid < right"
    using "1.prems"(1) by (simp_all add: mid_def)
  then have inb: "\<not> length (elems node) \<le> mid" and midn: "mid < node_n node"
    using "1.prems" by simp_all
  have mono: "\<And>i j. i < j \<Longrightarrow> j < node_n node \<Longrightarrow> elems node ! i < elems node ! j"
    using keys_nth_mono "1.prems"(3,4) by blast
  have below: "\<forall>i<left'. elems node ! i < elem"
  proof (intro allI impI)
    fix i assume i: "i < left'"
    show "elems node ! i < elem"
    proof (cases "cmp > 0")
      case True
      then have gt: "elems node ! mid < elem"
        by (simp add: cmp_def bt_default_cmp_def split: if_splits)
      from True i have "i \<le> mid" by (simp add: left'_def)
      then show ?thesis using gt mono [of i mid] midn by (cases "i = mid") auto
    next
      case False
      then show ?thesis using i "1.prems"(5) by (simp add: left'_def)
    qed
  qed
  have above: "\<forall>i. right' \<le> i \<and> i < node_n node \<longrightarrow> elem < elems node ! i"
  proof (intro allI impI)
    fix i assume i: "right' \<le> i \<and> i < node_n node"
    show "elem < elems node ! i"
    proof (cases "cmp < 0")
      case True
      then have lt: "elem < elems node ! mid"
        by (simp add: cmp_def bt_default_cmp_def split: if_splits)
      from True i have "mid \<le> i" by (simp add: right'_def)
      then show ?thesis using lt mono [of mid i] i by (cases "i = mid") auto
    next
      case False
      then show ?thesis using i "1.prems"(6) by (auto simp: right'_def split: if_splits)
    qed
  qed
  have unfold: "bsearch_loop node elem left right reads =
      (if cmp \<noteq> 0 \<and> left' < right' then bsearch_loop node elem left' right' (reads @ [mid])
       else Inr (left', right', mid, cmp, reads @ [mid]))"
    using inb unfolding left'_def right'_def cmp_def mid_def
    by (subst bsearch_loop.simps) (simp add: Let_def)
  show ?case
  proof (cases "cmp \<noteq> 0 \<and> left' < right'")
    case True
    have "right' \<le> node_n node"
      using mid "1.prems" by (simp add: right'_def)
    from "1.IH" [OF mid_def inb cmp_def left'_def right'_def True True[THEN conjunct2] this
        "1.prems"(3,4) below above]
    obtain l r m c rs where
      res: "bsearch_loop node elem left' right' (reads @ [mid]) = Inr (l, r, m, c, rs)"
      and props: "m < node_n node" "c = 0 \<longrightarrow> elems node ! m = elem"
        "c \<noteq> 0 \<longrightarrow> l = r \<and> l \<le> node_n node
                 \<and> (\<forall>i<l. elems node ! i < elem)
                 \<and> (\<forall>i. l \<le> i \<and> i < node_n node \<longrightarrow> elem < elems node ! i)"
      by blast
    have "bsearch_loop node elem left right reads = Inr (l, r, m, c, rs)"
      unfolding unfold using res by (simp only: if_P [OF True])
    then show ?thesis using props by blast
  next
    case False
    have eq: "bsearch_loop node elem left right reads = Inr (left', right', mid, cmp, reads @ [mid])"
      unfolding unfold by (rule if_not_P [OF False])
    have lr: "cmp \<noteq> 0 \<longrightarrow> left' = right' \<and> left' \<le> node_n node"
      using False mid midn by (auto simp: left'_def right'_def split: if_splits)
    have "cmp = 0 \<longrightarrow> elems node ! mid = elem"
      by (simp add: cmp_def bt_default_cmp_def split: if_splits)
    then show ?thesis using eq midn lr below above by auto
  qed
qed

lemma count_below_split:
  assumes "l \<le> n" and "n \<le> length es"
    and "\<forall>i<l. es ! i < (x::int)" and "\<forall>i. l \<le> i \<and> i < n \<longrightarrow> x < es ! i"
  shows "filter (\<lambda>k. bt_default_cmp k x < 0) (take n es) = take l es"
proof -
  have split: "take n es = take l es @ drop l (take n es)"
    using assms(1) by (metis append_take_drop_id min.absorb1 take_take)
  have low: "filter (\<lambda>k. bt_default_cmp k x < 0) (take l es) = take l es"
    using assms(1-3) by (auto simp: filter_id_conv in_set_conv_nth bt_default_cmp_def)
  have "x < es ! (l + i)" if "i < n - l" for i
    using that assms(4) [rule_format, of "l + i"] by simp
  then have high: "filter (\<lambda>k. bt_default_cmp k x < 0) (drop l (take n es)) = []"
    using assms(1,2) by (fastforce simp: filter_empty_conv in_set_conv_nth bt_default_cmp_def)
  show ?thesis
    by (subst split) (simp add: low high)
qed

text \<open>
  Claim C7. On a node with at least one key whose keys are strictly increasing,
  \<^verbatim>\<open>bt_node_bsearch\<close> returns the index of the key that compares equal to \<open>elem\<close> when
  there is one, and otherwise \<open>- p - 1\<close> where \<open>p\<close> is the number of keys that compare
  less than \<open>elem\<close>. The node's \<open>n\<close> is within the capacity of its array.
\<close>

theorem bt_node_bsearch_correct:
  assumes "1 \<le> node_n node" and "node_n node \<le> length (elems node)"
    and "sorted_wrt (<) (keys node)"
  shows "((\<exists>k \<in> set (keys node). bt_default_cmp elem k = 0) \<longrightarrow>
            (\<exists>i<node_n node. bt_node_bsearch node elem = Inr (int i)
                \<and> bt_default_cmp elem (elems node ! i) = 0))
       \<and> (\<not> (\<exists>k \<in> set (keys node). bt_default_cmp elem k = 0) \<longrightarrow>
            bt_node_bsearch node elem =
              Inr (- int (length (filter (\<lambda>k. bt_default_cmp k elem < 0) (keys node))) - 1))"
proof -
  from bsearch_loop_sorted [of 0 "node_n node" node elem "[]"] assms
  obtain l r m c rs where
    res: "bsearch_loop node elem 0 (node_n node) [] = Inr (l, r, m, c, rs)"
    and m: "m < node_n node" and found: "c = 0 \<longrightarrow> elems node ! m = elem"
    and absent: "c \<noteq> 0 \<longrightarrow> l = r \<and> l \<le> node_n node
                 \<and> (\<forall>i<l. elems node ! i < elem)
                 \<and> (\<forall>i. l \<le> i \<and> i < node_n node \<longrightarrow> elem < elems node ! i)"
    by auto
  show ?thesis
  proof (cases "c = 0")
    case True
    then have "bt_node_bsearch node elem = Inr (int m)"
      by (simp add: bt_node_bsearch_def res)
    moreover have "bt_default_cmp elem (elems node ! m) = 0"
      using True found by (simp add: bt_default_cmp_def)
    moreover have "elems node ! m \<in> set (keys node)"
      using m assms(2) by (auto simp: keys_def in_set_conv_nth intro!: exI [of _ m])
    ultimately show ?thesis using m by auto
  next
    case False
    with absent have lr: "l = r" "l \<le> node_n node"
      and lo: "\<forall>i<l. elems node ! i < elem"
      and hi: "\<forall>i. l \<le> i \<and> i < node_n node \<longrightarrow> elem < elems node ! i"
      by simp_all
    have none: "\<not> (\<exists>k \<in> set (keys node). bt_default_cmp elem k = 0)"
    proof
      assume "\<exists>k \<in> set (keys node). bt_default_cmp elem k = 0"
      then obtain i where "i < node_n node" "bt_default_cmp elem (elems node ! i) = 0"
        using assms(2) by (auto simp: keys_def in_set_conv_nth)
      then have "elems node ! i = elem"
        by (simp add: bt_default_cmp_def split: if_splits)
      with lo [rule_format, of i] hi [rule_format, of i] \<open>i < node_n node\<close> show False
        by (cases "i < l") simp_all
    qed
    have "filter (\<lambda>k. bt_default_cmp k elem < 0) (keys node) = take l (elems node)"
      unfolding keys_def using count_below_split [OF lr(2) assms(2) lo hi] .
    then have "length (filter (\<lambda>k. bt_default_cmp k elem < 0) (keys node)) = l"
      using lr(2) assms(2) by simp
    moreover have "bt_node_bsearch node elem = Inr (- int l - 1)"
      using False lr by (simp add: bt_node_bsearch_def res)
    ultimately show ?thesis using none by simp
  qed
qed

text \<open>
  Claim C8. On a node with at least one key, \<^verbatim>\<open>bt_node_bsearch\<close> reads \<open>elems\<close> only at
  indices below \<open>n\<close> and returns a value: the assertion \<^verbatim>\<open>left == right\<close> does not fail.
  The precondition is needed: on an empty node the search reads index \<open>0\<close>, which is
  not below \<open>n = 0\<close>, and the assertion fails when the stale slot there is smaller than
  \<open>elem\<close>.
\<close>

theorem bt_node_bsearch_safe:
  "(1 \<le> node_n node \<and> node_n node \<le> length (elems node) \<longrightarrow>
      (\<exists>rs. bsearch_reads node elem = Inr rs \<and> (\<forall>mid \<in> set rs. mid < node_n node))
      \<and> (\<exists>idx. bt_node_bsearch node elem = Inr idx))
   \<and> (node_n node = 0 \<and> elems node \<noteq> [] \<longrightarrow>
      bsearch_reads node elem = Inr [0]
      \<and> (elems node ! 0 < elem \<longrightarrow> bt_node_bsearch node elem = Inl Assert_failed))"
proof (intro conjI impI)
  assume pre: "1 \<le> node_n node \<and> node_n node \<le> length (elems node)"
  with bsearch_loop_safe [of 0 "node_n node" node elem "[]"]
  obtain l r m c rs where
    res: "bsearch_loop node elem 0 (node_n node) [] = Inr (l, r, m, c, rs)"
    and props: "c \<noteq> 0 \<longrightarrow> l = r" "m < node_n node" "set rs \<subseteq> {..<node_n node}"
    by auto
  show "\<exists>rs. bsearch_reads node elem = Inr rs \<and> (\<forall>mid \<in> set rs. mid < node_n node)"
    using res props by (auto simp: bsearch_reads_def)
  show "\<exists>idx. bt_node_bsearch node elem = Inr idx"
    using res props by (auto simp: bt_node_bsearch_def)
next
  assume empty: "node_n node = 0 \<and> elems node \<noteq> []"
  then have loop: "bsearch_loop node elem 0 (node_n node) [] =
      (let cmp = bt_default_cmp elem (elems node ! 0) in
        Inr (if cmp > 0 then 1 else 0, 0, 0, cmp, [0]))"
    by (subst bsearch_loop.simps) (simp add: Let_def)
  show "bsearch_reads node elem = Inr [0]"
    by (simp add: bsearch_reads_def loop Let_def)
  show "bt_node_bsearch node elem = Inl Assert_failed" if "elems node ! 0 < elem"
    using that by (simp add: bt_node_bsearch_def loop Let_def bt_default_cmp_def)
qed

theorem bt_node_bsearch_correct_witness:
  "(\<exists>i<3. bt_node_bsearch (Bnode 3 [10, 20, 30, 0, 0] (replicate 6 None)) 20 = Inr (int i)
        \<and> bt_default_cmp 20 ([10, 20, 30, 0, 0] ! i) = 0)
   \<and> bt_node_bsearch (Bnode 3 [10, 20, 30, 0, 0] (replicate 6 None)) 25 = Inr (- 3)"
  using bt_node_bsearch_correct [of "Bnode 3 [10, 20, 30, 0, 0] (replicate 6 None)" 20]
    bt_node_bsearch_correct [of "Bnode 3 [10, 20, 30, 0, 0] (replicate 6 None)" 25]
  by (simp add: keys_def bt_default_cmp_def)

theorem bt_node_bsearch_safe_witness:
  "(\<exists>rs. bsearch_reads (Bnode 3 [10, 20, 30, 0, 0] (replicate 6 None)) 25 = Inr rs
        \<and> list_all (\<lambda>mid. mid < 3) rs)
   \<and> (\<exists>idx. bt_node_bsearch (Bnode 3 [10, 20, 30, 0, 0] (replicate 6 None)) 25 = Inr idx)
   \<and> bsearch_reads calloc_bnode 1 = Inr [0]
   \<and> bt_node_bsearch calloc_bnode 1 = Inl Assert_failed"
  using bt_node_bsearch_safe [of "Bnode 3 [10, 20, 30, 0, 0] (replicate 6 None)" 25]
    bt_node_bsearch_safe [of calloc_bnode 1]
  by (simp add: calloc_bnode_def elems_cap_def factor_def list_all_iff)

section \<open>Properties of the split\<close>

lemma length_memcpy_list:
  assumes "d + cnt \<le> length dst" and "s + cnt \<le> length src"
  shows "length (memcpy_list dst d src s cnt) = length dst"
  using assms by (simp add: memcpy_list_def)

lemma nth_memcpy_list:
  assumes "d + cnt \<le> length dst" and "s + cnt \<le> length src" and "j < length dst"
  shows "memcpy_list dst d src s cnt ! j =
           (if j < d then dst ! j else if j < d + cnt then src ! (s + (j - d)) else dst ! j)"
  using assms by (auto simp: memcpy_list_def nth_append)

lemma length_memmove_list:
  assumes "d + cnt \<le> length xs" and "s + cnt \<le> length xs"
  shows "length (memmove_list xs d s cnt) = length xs"
  using assms by (simp add: memmove_list_def length_memcpy_list)

lemma nth_memmove_list:
  assumes "d + cnt \<le> length xs" and "s + cnt \<le> length xs" and "j < length xs"
  shows "memmove_list xs d s cnt ! j =
           (if j < d then xs ! j else if j < d + cnt then xs ! (s + (j - d)) else xs ! j)"
  using assms by (simp add: memmove_list_def nth_memcpy_list)

lemma calloc_bnode_simps:
  "node_n calloc_bnode = 0"
  "length (elems calloc_bnode) = elems_cap"
  "length (children calloc_bnode) = children_cap"
  "k < elems_cap \<Longrightarrow> elems calloc_bnode ! k = 0"
  "j < children_cap \<Longrightarrow> children calloc_bnode ! j = None"
  by (simp_all add: calloc_bnode_def)

lemma calloc_bnode_children: "children calloc_bnode = replicate children_cap None"
  by (simp add: calloc_bnode_def)

lemma bt_split_node_slots:
  assumes idx: "idx \<le> node_n parent" and room: "node_n parent + 2 \<le> length (children parent)"
    and child: "children parent ! idx = Some child"
    and lay: "length (elems child) = elems_cap" "length (children child) = children_cap"
  shows "\<exists>parent' sib.
      bt_split_node parent idx = Inr (parent', elems child ! factor)
    \<and> node_n parent' = node_n parent \<and> elems parent' = elems parent
    \<and> length (children parent') = length (children parent)
    \<and> (\<forall>j<idx. children parent' ! j = children parent ! j)
    \<and> children parent' ! idx = Some (Bnode factor (elems child) (children child))
    \<and> children parent' ! (idx + 1) = Some sib
    \<and> (\<forall>j. idx < j \<and> j \<le> node_n parent \<longrightarrow> children parent' ! (j + 1) = children parent ! j)
    \<and> (\<forall>j. node_n parent + 1 < j \<and> j < length (children parent) \<longrightarrow>
            children parent' ! j = children parent ! j)
    \<and> node_n sib = factor
    \<and> length (elems sib) = elems_cap \<and> length (children sib) = children_cap
    \<and> (\<forall>k<factor. elems sib ! k = elems child ! (factor + 1 + k))
    \<and> (\<forall>k. factor \<le> k \<and> k < elems_cap \<longrightarrow> elems sib ! k = 0)
    \<and> (children child ! 0 \<noteq> None \<longrightarrow>
          (\<forall>k\<le>factor. children sib ! k = children child ! (factor + 1 + k))
          \<and> (\<forall>k. factor < k \<and> k < children_cap \<longrightarrow> children sib ! k = None))
    \<and> (children child ! 0 = None \<longrightarrow> children sib = replicate children_cap None)"
proof -
  define moved where
    "moved = memmove_list (children parent) (idx + 2) (idx + 1) (node_n parent - idx)"
  define sib_elems where
    "sib_elems = memcpy_list (elems calloc_bnode) 0 (elems child) (factor + 1) factor"
  define sib_children where
    "sib_children = (if children child ! 0 \<noteq> None
       then memcpy_list (children calloc_bnode) 0 (children child) (factor + 1) (factor + 1)
       else children calloc_bnode)"
  define sib where "sib = Bnode factor sib_elems sib_children"
  define cs' where
    "cs' = moved[idx + 1 := Some sib, idx := Some (Bnode factor (elems child) (children child))]"
  have res: "bt_split_node parent idx = Inr (Bnode (node_n parent) (elems parent) cs', elems child ! factor)"
    using idx room child lay
    by (simp add: bt_split_node_def Let_def cs'_def sib_def sib_children_def sib_elems_def
        moved_def elems_cap_def children_cap_def)
  have len_moved: "length moved = length (children parent)"
    using idx room by (simp add: moved_def length_memmove_list)
  have nth_moved: "moved ! j = (if j < idx + 2 then children parent ! j
                     else if j < node_n parent + 2 then children parent ! (j - 1)
                     else children parent ! j)" if "j < length (children parent)" for j
  proof -
    have "idx + 1 + (j - (idx + 2)) = j - 1" if "\<not> j < idx + 2"
      using that by arith
    then show ?thesis
      using idx room \<open>j < length (children parent)\<close>
      by (simp add: moved_def nth_memmove_list del: One_nat_def add_Suc_right add_2_eq_Suc')
  qed
  have sib_e: "length sib_elems = elems_cap"
    "\<forall>k<factor. sib_elems ! k = elems child ! (factor + 1 + k)"
    "\<forall>k. factor \<le> k \<and> k < elems_cap \<longrightarrow> sib_elems ! k = 0"
  proof -
    have fit: "0 + factor \<le> length (elems calloc_bnode)" "factor + 1 + factor \<le> length (elems child)"
      using lay by (simp_all add: calloc_bnode_simps elems_cap_def)
    have "factor < elems_cap"
      by (simp add: elems_cap_def)
    show "length sib_elems = elems_cap"
      unfolding sib_elems_def using length_memcpy_list [OF fit] by (simp add: calloc_bnode_simps)
    show "\<forall>k<factor. sib_elems ! k = elems child ! (factor + 1 + k)"
      unfolding sib_elems_def using nth_memcpy_list [OF fit] \<open>factor < elems_cap\<close>
      by (simp add: calloc_bnode_simps)
    show "\<forall>k. factor \<le> k \<and> k < elems_cap \<longrightarrow> sib_elems ! k = 0"
      unfolding sib_elems_def using nth_memcpy_list [OF fit]
      by (simp add: calloc_bnode_simps)
  qed
  have sib_c: "length sib_children = children_cap"
    "children child ! 0 \<noteq> None \<longrightarrow>
       (\<forall>k\<le>factor. sib_children ! k = children child ! (factor + 1 + k))
       \<and> (\<forall>k. factor < k \<and> k < children_cap \<longrightarrow> sib_children ! k = None)"
    "children child ! 0 = None \<longrightarrow> sib_children = replicate children_cap None"
  proof -
    have fit: "0 + (factor + 1) \<le> length (children calloc_bnode)"
      "factor + 1 + (factor + 1) \<le> length (children child)"
      using lay by (simp_all add: calloc_bnode_simps children_cap_def)
    show "length sib_children = children_cap"
      unfolding sib_children_def using length_memcpy_list [OF fit]
      by (simp add: calloc_bnode_simps)
    have "factor < children_cap"
      by (simp add: children_cap_def)
    then show "children child ! 0 \<noteq> None \<longrightarrow>
       (\<forall>k\<le>factor. sib_children ! k = children child ! (factor + 1 + k))
       \<and> (\<forall>k. factor < k \<and> k < children_cap \<longrightarrow> sib_children ! k = None)"
      unfolding sib_children_def using nth_memcpy_list [OF fit]
      by (simp add: calloc_bnode_simps)
    show "children child ! 0 = None \<longrightarrow> sib_children = replicate children_cap None"
      unfolding sib_children_def by (simp add: calloc_bnode_children)
  qed
  have "\<forall>j<idx. cs' ! j = children parent ! j"
    using idx room len_moved by (auto simp: cs'_def nth_moved)
  moreover have "cs' ! idx = Some (Bnode factor (elems child) (children child))"
    using idx room len_moved by (simp add: cs'_def)
  moreover have "cs' ! (idx + 1) = Some sib"
    using idx room len_moved by (simp add: cs'_def)
  moreover have "\<forall>j. idx < j \<and> j \<le> node_n parent \<longrightarrow> cs' ! (j + 1) = children parent ! j"
    using idx room len_moved by (auto simp: cs'_def nth_moved)
  moreover have "\<forall>j. node_n parent + 1 < j \<and> j < length (children parent) \<longrightarrow>
      cs' ! j = children parent ! j"
    using idx room len_moved by (auto simp: cs'_def nth_moved)
  moreover have "length cs' = length (children parent)"
    using len_moved by (simp add: cs'_def)
  ultimately show ?thesis
    using res sib_e sib_c
    by (intro exI [of _ "Bnode (node_n parent) (elems parent) cs'"] exI [of _ sib])
       (simp add: sib_def)
qed

text \<open>
  Claim C6. When \<open>parent\<close> has room for one more child and its child at \<open>idx\<close> holds
  \<open>2 * factor + 1\<close> keys, \<^verbatim>\<open>bt_split_node(parent, idx)\<close> puts a new sibling at
  \<open>children[idx + 1]\<close>, moves the child references after \<open>idx\<close> one slot right, copies
  the child's keys at \<open>factor + 1 .. 2 * factor\<close> to the sibling (and, when the child is
  not a leaf, its child references at \<open>factor + 1 .. 2 * factor + 1\<close>), sets both key
  counts to \<open>factor\<close>, returns the child's key at \<open>factor\<close>, and leaves the parent's
  keys and key count as they were.
\<close>

theorem bt_split_node_spec:
  assumes "idx \<le> node_n parent" and "node_n parent + 2 \<le> length (children parent)"
    and "children parent ! idx = Some child" and "layout child"
    and "node_n child = 2 * factor + 1"
  shows "\<exists>parent' sib.
      bt_split_node parent idx = Inr (parent', elems child ! factor)
    \<and> node_n parent' = node_n parent \<and> elems parent' = elems parent
    \<and> take idx (children parent') = take idx (children parent)
    \<and> children parent' ! idx = Some (Bnode factor (elems child) (children child))
    \<and> children parent' ! (idx + 1) = Some sib
    \<and> (\<forall>j. idx < j \<and> j \<le> node_n parent \<longrightarrow> children parent' ! (j + 1) = children parent ! j)
    \<and> node_n sib = factor
    \<and> keys sib = drop (factor + 1) (keys child)
    \<and> (children child ! 0 \<noteq> None \<longrightarrow>
          take (factor + 1) (children sib) = drop (factor + 1) (children child))
    \<and> (children child ! 0 = None \<longrightarrow> children sib = replicate children_cap None)"
proof -
  have lay: "length (elems child) = elems_cap" "length (children child) = children_cap"
    using assms(4) by (simp_all add: layout_def)
  from bt_split_node_slots [OF assms(1-3) lay]
  obtain parent' sib where
    res: "bt_split_node parent idx = Inr (parent', elems child ! factor)"
    and par: "node_n parent' = node_n parent" "elems parent' = elems parent"
      "length (children parent') = length (children parent)"
      "\<forall>j<idx. children parent' ! j = children parent ! j"
      "children parent' ! idx = Some (Bnode factor (elems child) (children child))"
      "children parent' ! (idx + 1) = Some sib"
      "\<forall>j. idx < j \<and> j \<le> node_n parent \<longrightarrow> children parent' ! (j + 1) = children parent ! j"
    and sib: "node_n sib = factor" "length (elems sib) = elems_cap"
      "length (children sib) = children_cap"
      "\<forall>k<factor. elems sib ! k = elems child ! (factor + 1 + k)"
      "children child ! 0 \<noteq> None \<longrightarrow>
          (\<forall>k\<le>factor. children sib ! k = children child ! (factor + 1 + k))"
      "children child ! 0 = None \<longrightarrow> children sib = replicate children_cap None"
    by (elim exE conjE) (rule that; simp)
  have "take idx (children parent') = take idx (children parent)"
    using par(3,4) by (intro nth_equalityI) simp_all
  moreover have "keys sib = drop (factor + 1) (keys child)"
    using sib(1,2,4) lay assms(5)
    by (intro nth_equalityI) (simp_all add: keys_def elems_cap_def)
  moreover have "take (factor + 1) (children sib) = drop (factor + 1) (children child)"
    if "children child ! 0 \<noteq> None"
    using that sib(3,5) lay
    by (intro nth_equalityI) (simp_all add: children_cap_def)
  ultimately show ?thesis
    using res par sib by (intro exI [of _ parent'] exI [of _ sib]) simp
qed

theorem bt_split_node_spec_witness:
  "\<exists>parent' sib.
      bt_split_node
        (Bnode 1 [10, 0, 0, 0, 0]
           [Some (Bnode 5 [1, 2, 3, 4, 5] (replicate 6 None)),
            Some (Bnode 2 [20, 30, 0, 0, 0] (replicate 6 None)), None, None, None, None]) 0
        = Inr (parent', 3)
    \<and> node_n parent' = 1 \<and> elems parent' = [10, 0, 0, 0, 0]
    \<and> children parent' ! 0 = Some (Bnode 2 [1, 2, 3, 4, 5] (replicate 6 None))
    \<and> children parent' ! 1 = Some sib
    \<and> children parent' ! 2 = Some (Bnode 2 [20, 30, 0, 0, 0] (replicate 6 None))
    \<and> node_n sib = 2 \<and> keys sib = [4, 5]
    \<and> children sib = replicate 6 None"
proof -
  let ?child = "Bnode 5 [1, 2, 3, 4, 5] (replicate 6 None)"
  let ?parent = "Bnode 1 [10, 0, 0, 0, 0]
      [Some ?child, Some (Bnode 2 [20, 30, 0, 0, 0] (replicate 6 None)), None, None, None, None]"
  from bt_split_node_spec [of 0 ?parent ?child]
  obtain parent' sib where
    res: "bt_split_node ?parent 0 = Inr (parent', 3)"
    and par: "node_n parent' = 1" "elems parent' = [10, 0, 0, 0, 0]"
      "children parent' ! 0 = Some (Bnode 2 [1, 2, 3, 4, 5] (replicate 6 None))"
      "children parent' ! (0 + 1) = Some sib"
    and shifted: "\<forall>j. 0 < j \<and> j \<le> 1 \<longrightarrow> children parent' ! (j + 1) = children ?parent ! j"
    and sib: "node_n sib = 2" "keys sib = [4, 5]" "children sib = replicate 6 None"
    by (auto simp: layout_def elems_cap_def children_cap_def factor_def keys_def)
  from shifted [rule_format, of 1]
  have "children parent' ! 2 = Some (Bnode 2 [20, 30, 0, 0, 0] (replicate 6 None))"
    by (simp add: numeral_2_eq_2)
  then show ?thesis
    using res par sib by auto
qed

section \<open>The in-order sequence around a slot\<close>

lemma left_part_0 [simp]: "left_part sub key 0 = []"
  by (simp add: left_part_def)

lemma left_part_Suc: "left_part sub key (Suc p) = left_part sub key p @ sub p @ [key p]"
  by (simp add: left_part_def)

lemma right_part_empty [simp]: "n \<le> p \<Longrightarrow> right_part sub key p n = []"
  by (simp add: right_part_def)

lemma right_part_Cons:
  "p < n \<Longrightarrow> right_part sub key p n = key p # sub (Suc p) @ right_part sub key (Suc p) n"
  by (simp add: right_part_def upt_conv_Cons)

lemma right_part_snoc:
  "p \<le> n \<Longrightarrow> right_part sub key p (Suc n) = right_part sub key p n @ key n # sub (Suc n)"
  by (simp add: right_part_def)

lemma inorder_eq: "inorder node = left_part (sub_of node) (key_of node) (node_n node)
    @ sub_of node (node_n node)"
  by (subst inorder.simps) (simp add: left_part_def sub_of_def key_of_def inorder_opt_def)

lemma around_slot:
  "p \<le> n \<Longrightarrow> left_part sub key n @ sub n = left_part sub key p @ sub p @ right_part sub key p n"
proof (induction n)
  case 0
  then show ?case by simp
next
  case (Suc n)
  show ?case
  proof (cases "p = Suc n")
    case True
    then show ?thesis by simp
  next
    case False
    with Suc.prems have "p \<le> n" by simp
    then show ?thesis
      using Suc.IH by (simp add: left_part_Suc right_part_snoc)
  qed
qed

lemma inorder_around:
  "p \<le> node_n node \<Longrightarrow>
   inorder node = left_part (sub_of node) (key_of node) p @ sub_of node p
     @ right_part (sub_of node) (key_of node) p (node_n node)"
  by (simp add: inorder_eq around_slot)

lemma left_part_cong:
  assumes "\<And>i. i < p \<Longrightarrow> sub' i = sub i \<and> key' i = key i"
  shows "left_part sub' key' p = left_part sub key p"
proof -
  have "map (\<lambda>i. sub' i @ [key' i]) [0..<p] = map (\<lambda>i. sub i @ [key i]) [0..<p]"
    using assms by (intro map_cong) simp_all
  then show ?thesis unfolding left_part_def by (rule arg_cong)
qed

lemma right_part_cong:
  assumes "\<And>i. p \<le> i \<Longrightarrow> i < n \<Longrightarrow> sub' (Suc i) = sub (Suc i) \<and> key' i = key i"
  shows "right_part sub' key' p n = right_part sub key p n"
proof -
  have "map (\<lambda>i. key' i # sub' (Suc i)) [p..<n] = map (\<lambda>i. key i # sub (Suc i)) [p..<n]"
    using assms by (intro map_cong) simp_all
  then show ?thesis unfolding right_part_def by (rule arg_cong)
qed

lemma right_part_shift:
  assumes "\<And>i. p \<le> i \<Longrightarrow> i < n \<Longrightarrow> sub' (Suc (Suc i)) = sub (Suc i) \<and> key' (Suc i) = key i"
  shows "right_part sub' key' (Suc p) (Suc n) = right_part sub key p n"
proof -
  have "right_part sub' key' (Suc p) (Suc n)
      = concat (map ((\<lambda>i. key' i # sub' (Suc i)) \<circ> Suc) [p..<n])"
    unfolding right_part_def map_Suc_upt [symmetric] by simp
  also have "map ((\<lambda>i. key' i # sub' (Suc i)) \<circ> Suc) [p..<n]
      = map (\<lambda>i. key i # sub (Suc i)) [p..<n]"
    using assms by (intro map_cong) simp_all
  finally show ?thesis by (simp add: right_part_def)
qed

lemma left_part_below:
  assumes "sorted_wrt (<) (left_part sub key p)" and "\<And>i. i < p \<Longrightarrow> key i < (e::int)"
  shows "\<forall>a \<in> set (left_part sub key p). a < e"
proof (cases p)
  case 0
  then show ?thesis by simp
next
  case (Suc q)
  with assms(1) have "\<forall>a \<in> set (left_part sub key q @ sub q). a < key q"
    by (simp add: left_part_Suc sorted_wrt_append) blast
  moreover have "key q < e"
    using assms(2) Suc by simp
  ultimately have "a < e" if "a \<in> set (left_part sub key (Suc q))" for a
    using that by (auto simp: left_part_Suc intro: less_trans)
  then show ?thesis
    using Suc by simp
qed

lemma right_part_above:
  assumes "sorted_wrt (<) (right_part sub key p n)" and "\<And>i. p \<le> i \<Longrightarrow> i < n \<Longrightarrow> (e::int) < key i"
  shows "\<forall>b \<in> set (right_part sub key p n). e < b"
proof (cases "p < n")
  case True
  with assms(1) have "\<forall>b \<in> set (sub (Suc p) @ right_part sub key (Suc p) n). key p < b"
    by (simp add: right_part_Cons)
  moreover have "e < key p"
    using assms(2) True by simp
  ultimately have "e < b" if "b \<in> set (key p # sub (Suc p) @ right_part sub key (Suc p) n)" for b
    using that by (auto intro: less_trans)
  then show ?thesis
    using True by (simp add: right_part_Cons)
next
  case False
  then show ?thesis by simp
qed

lemma sorted_replace_mid:
  assumes "sorted_wrt (<) (L @ X @ R)" and "sorted_wrt (<) X'"
    and "set X' = insert e (set X)"
    and "\<forall>a \<in> set L. a < (e::int)" and "\<forall>b \<in> set R. e < b"
  shows "sorted_wrt (<) (L @ X' @ R)"
  using assms by (auto simp: sorted_wrt_append)

section \<open>The steps of an insertion, slot by slot\<close>

lemma child_at_nth: "i < length (children node) \<Longrightarrow> child_at node i = children node ! i"
  by (simp add: child_at_def)

lemma bnode_rebuild: "Bnode (node_n node) (elems node) (children node) = node"
  by (cases node) simp

lemma node_insert_at_slots:
  assumes "p \<le> node_n node" and "node_n node < length (elems node)"
  shows "\<exists>node'. node_insert_at node p x prev = Inr (node', False, prev)
    \<and> node_n node' = node_n node + 1
    \<and> children node' = children node
    \<and> length (elems node') = length (elems node)
    \<and> (\<forall>i<p. elems node' ! i = elems node ! i)
    \<and> elems node' ! p = x
    \<and> (\<forall>i. p \<le> i \<and> i < node_n node \<longrightarrow> elems node' ! Suc i = elems node ! i)"
proof -
  define es' where
    "es' = (memmove_list (elems node) (p + 1) p (node_n node - p))[p := x]"
  have fit: "p + 1 + (node_n node - p) \<le> length (elems node)"
    "p + (node_n node - p) \<le> length (elems node)"
    using assms by simp_all
  have res: "node_insert_at node p x prev = Inr (Bnode (node_n node + 1) es' (children node), False, prev)"
    using assms by (simp add: node_insert_at_def es'_def)
  have len: "length es' = length (elems node)"
    using length_memmove_list [OF fit] by (simp add: es'_def)
  have "\<forall>i<p. es' ! i = elems node ! i"
    using assms nth_memmove_list [OF fit] by (simp add: es'_def)
  moreover have "es' ! p = x"
    using assms length_memmove_list [OF fit] by (simp add: es'_def)
  moreover have "\<forall>i. p \<le> i \<and> i < node_n node \<longrightarrow> es' ! Suc i = elems node ! i"
    using assms nth_memmove_list [OF fit] by (simp add: es'_def)
  ultimately show ?thesis
    using res len by simp
qed


lemma shape_layout: "shape lo hi h node \<Longrightarrow> layout node"
  by (cases h) simp_all

lemma shape_bounds: "shape lo hi h node \<Longrightarrow> lo \<le> node_n node \<and> node_n node \<le> hi"
  by (cases h) simp_all

lemma shape_leaf_child_at: "shape lo hi 0 node \<Longrightarrow> child_at node i = None"
  by (simp add: child_at_def)

lemma shape_leaf_sub_of:
  assumes "shape lo hi 0 node"
  shows "sub_of node i = []"
proof -
  from assms have "child_at node i = None"
    by (rule shape_leaf_child_at)
  then show ?thesis
    by (simp add: sub_of_def inorder_opt_def)
qed

lemma shape_inner_child:
  assumes "shape lo hi (Suc h) node" and "i \<le> node_n node"
  obtains t where "child_at node i = Some t" and "shape factor (2 * factor) h t"
proof -
  from assms(2) have "i \<in> {0..node_n node}"
    by simp
  with assms(1)
  have "case child_at node i of None \<Rightarrow> False | Some t \<Rightarrow> shape factor (2 * factor) h t"
    by (simp del: atLeastAtMost_iff)
  with that show thesis
    by (cases "child_at node i") simp_all
qed

lemma shape_SucI:
  assumes "layout node" and "lo \<le> node_n node" and "node_n node \<le> hi"
    and "\<And>i. i \<le> node_n node \<Longrightarrow> \<exists>t. child_at node i = Some t \<and> shape factor (2 * factor) h t"
  shows "shape lo hi (Suc h) node"
  using assms by (fastforce split: option.splits)

lemma shape_weaken:
  assumes "shape lo hi h node" and "lo' \<le> node_n node" and "node_n node \<le> hi'"
  shows "shape lo' hi' h node"
  using assms by (cases h) simp_all

lemma left_part_2: "left_part sub key 2 = sub 0 @ key 0 # sub 1 @ [key 1]"
  by (simp add: left_part_def numeral_2_eq_2)

lemma split_products:
  assumes child: "shape factor (2 * factor + 1) h child" and full: "node_n child = 2 * factor + 1"
    and sib: "node_n sib = factor" "layout sib"
      "\<forall>k<factor. elems sib ! k = elems child ! (factor + 1 + k)"
      "children child ! 0 \<noteq> None \<longrightarrow>
         (\<forall>k\<le>factor. children sib ! k = children child ! (factor + 1 + k))"
      "children child ! 0 = None \<longrightarrow> children sib = replicate children_cap None"
  shows "shape factor (2 * factor) h (Bnode factor (elems child) (children child))"
    and "shape factor (2 * factor) h sib"
    and "inorder child = inorder (Bnode factor (elems child) (children child))
           @ elems child ! factor # inorder sib"
proof -
  let ?c1 = "Bnode factor (elems child) (children child)"
  have lay: "length (elems child) = 5" "length (children child) = 6"
    "length (elems sib) = 5" "length (children sib) = 6"
    using shape_layout [OF child] sib(2)
    by (simp_all add: layout_def elems_cap_def children_cap_def factor_def)
  have c1_child_at: "child_at ?c1 i = child_at child i" for i
    by (simp add: child_at_def)
  have sib_sub: "sub_of sib k = sub_of child (3 + k)" if "k \<le> 2" for k
  proof (cases h)
    case 0
    with child have "children child = replicate children_cap None"
      by simp
    moreover from this sib(5) have "children sib = replicate children_cap None"
      by (simp add: children_cap_def factor_def)
    ultimately show ?thesis
      by (simp add: sub_of_def child_at_def)
  next
    case (Suc h')
    with child obtain t where "child_at child 0 = Some t"
      using shape_inner_child [of "factor" "2 * factor + 1" h' child 0] by auto
    then have "children child ! 0 \<noteq> None"
      using lay by (simp add: child_at_def)
    with sib(4) that have "children sib ! k = children child ! (3 + k)"
      by (simp add: factor_def)
    then show ?thesis
      using that lay by (simp add: sub_of_def child_at_def)
  qed
  have sib_key: "key_of sib k = key_of child (3 + k)" if "k < 2" for k
    using sib(3) that by (simp add: key_of_def factor_def)
  show "shape factor (2 * factor) h ?c1"
  proof (cases h)
    case 0
    with child show ?thesis by (simp add: layout_def)
  next
    case (Suc h')
    show ?thesis
      unfolding Suc
    proof (rule shape_SucI)
      show "layout ?c1"
        using shape_layout [OF child] by (simp add: layout_def)
      fix i assume "i \<le> node_n ?c1"
      then have "i \<le> node_n child"
        using full by simp
      with child Suc show "\<exists>t. child_at ?c1 i = Some t \<and> shape factor (2 * factor) h' t"
        using shape_inner_child [of "factor" "2 * factor + 1" h' child i]
        by (auto simp: c1_child_at)
    qed simp_all
  qed
  show "shape factor (2 * factor) h sib"
  proof (cases h)
    case 0
    with child have "children child ! 0 = None"
      by (simp add: children_cap_def)
    with sib 0 show ?thesis
      by (simp add: factor_def)
  next
    case (Suc h')
    have "\<exists>t. child_at sib k = Some t \<and> shape factor (2 * factor) h' t"
      if "k \<le> node_n sib" for k
    proof -
      from that sib(1) have "k \<le> 2"
        by (simp add: factor_def)
      from child Suc obtain t where "child_at child 0 = Some t"
        using shape_inner_child [of "factor" "2 * factor + 1" h' child 0] by auto
      then have "children child ! 0 \<noteq> None"
        using lay by (simp add: child_at_def)
      with sib(4) \<open>k \<le> 2\<close> have "children sib ! k = children child ! (3 + k)"
        by (simp add: factor_def)
      then have "child_at sib k = child_at child (3 + k)"
        using \<open>k \<le> 2\<close> lay by (simp add: child_at_def)
      moreover have "3 + k \<le> node_n child"
        using \<open>k \<le> 2\<close> full by (simp add: factor_def)
      ultimately show ?thesis
        using child Suc shape_inner_child [of "factor" "2 * factor + 1" h' child "3 + k"]
        by auto
    qed
    with sib show ?thesis
      unfolding Suc by (intro shape_SucI) simp_all
  qed
  have "inorder child = left_part (sub_of child) (key_of child) 2 @ sub_of child 2
      @ right_part (sub_of child) (key_of child) 2 5"
    using inorder_around [of 2 child] full by (simp add: factor_def)
  also have "right_part (sub_of child) (key_of child) 2 5
      = key_of child 2 # (sub_of child 3 @ key_of child 3 # sub_of child 4 @ key_of child 4 # sub_of child 5)"
    by (simp add: right_part_def)
  also have "sub_of child 3 @ key_of child 3 # sub_of child 4 @ key_of child 4 # sub_of child 5
      = inorder sib"
    using sib_sub [of 0] sib_sub [of 1] sib_sub [of 2] sib_key [of 0] sib_key [of 1] sib(1)
    by (simp add: inorder_eq [of sib] left_part_2 factor_def)
  finally have whole: "inorder child = left_part (sub_of child) (key_of child) 2 @ sub_of child 2
      @ key_of child 2 # inorder sib" .
  have "left_part (sub_of child) (key_of child) 2 @ sub_of child 2 = inorder ?c1"
  proof -
    have "sub_of ?c1 = sub_of child" "key_of ?c1 = key_of child"
      by (simp_all add: sub_of_def key_of_def c1_child_at fun_eq_iff)
    then have "inorder ?c1 = left_part (sub_of child) (key_of child) factor @ sub_of child factor"
      by (simp add: inorder_eq [of ?c1])
    then show ?thesis
      by (simp add: factor_def)
  qed
  then have "inorder ?c1 @ elems child ! factor # inorder sib
      = left_part (sub_of child) (key_of child) 2 @ sub_of child 2 @ key_of child 2 # inorder sib"
    by (simp add: key_of_def factor_def)
  with whole show "inorder child = inorder ?c1 @ elems child ! factor # inorder sib"
    by simp
qed

lemma bt_node_bsearch_cases:
  assumes "1 \<le> node_n node" and "node_n node \<le> length (elems node)"
    and "sorted_wrt (<) (keys node)"
  obtains (found) i where "i < node_n node" and "bt_node_bsearch node elem = Inr (int i)"
      and "elems node ! i = elem"
  | (absent) p where "p \<le> node_n node" and "bt_node_bsearch node elem = Inr (- int p - 1)"
      and "\<forall>i<p. elems node ! i < elem"
      and "\<forall>i. p \<le> i \<and> i < node_n node \<longrightarrow> elem < elems node ! i"
proof -
  from bsearch_loop_sorted [of 0 "node_n node" node elem "[]"] assms
  obtain l r m c rs where
    res: "bsearch_loop node elem 0 (node_n node) [] = Inr (l, r, m, c, rs)"
    and m: "m < node_n node" and eq: "c = 0 \<longrightarrow> elems node ! m = elem"
    and ne: "c \<noteq> 0 \<longrightarrow> l = r \<and> l \<le> node_n node
                 \<and> (\<forall>i<l. elems node ! i < elem)
                 \<and> (\<forall>i. l \<le> i \<and> i < node_n node \<longrightarrow> elem < elems node ! i)"
    by auto
  show thesis
  proof (cases "c = 0")
    case True
    then have "bt_node_bsearch node elem = Inr (int m)"
      by (simp add: bt_node_bsearch_def res)
    with m eq True show thesis
      by (intro found [of m]) simp_all
  next
    case False
    with ne have "bt_node_bsearch node elem = Inr (- int l - 1)"
      by (simp add: bt_node_bsearch_def res)
    with ne False show thesis
      by (intro absent [of l]) simp_all
  qed
qed

lemma key_in_right_part:
  "p \<le> j \<Longrightarrow> j < n \<Longrightarrow> key j \<in> set (right_part sub key p n)"
  by (auto simp: right_part_def)

lemma key_in_inorder: "i < node_n node \<Longrightarrow> elems node ! i \<in> set (inorder node)"
  by (auto simp: inorder_eq left_part_def key_of_def)

lemma sub_sorted:
  assumes "sorted_wrt (<) (inorder node)" and "p \<le> node_n node"
  shows "sorted_wrt (<) (sub_of node p)"
  using assms by (simp add: inorder_around [of p node] sorted_wrt_append)

lemma keys_sorted:
  assumes "sorted_wrt (<) (inorder node)" and "node_n node \<le> length (elems node)"
  shows "sorted_wrt (<) (keys node)"
proof -
  have "keys node ! i < keys node ! j" if "i < j" and "j < length (keys node)" for i j
  proof -
    from that assms(2) have ij: "i < node_n node" "j < node_n node" "Suc i \<le> j"
      by (simp_all add: keys_def)
    have "inorder node = left_part (sub_of node) (key_of node) i @ sub_of node i
        @ key_of node i # sub_of node (Suc i)
        @ right_part (sub_of node) (key_of node) (Suc i) (node_n node)"
      using ij(1) by (simp add: inorder_around [of i node] right_part_Cons)
    moreover have "key_of node j \<in> set (right_part (sub_of node) (key_of node) (Suc i) (node_n node))"
      using ij by (intro key_in_right_part)
    ultimately have "key_of node i < key_of node j"
      using assms(1) by (simp add: sorted_wrt_append)
    then show ?thesis
      using ij by (simp add: keys_def key_of_def)
  qed
  then show ?thesis
    by (simp add: sorted_wrt_iff_nth_less)
qed


lemma shape_inner_slot:
  assumes "shape lo hi (Suc h) node" and "i \<le> node_n node"
  shows "i < length (children node)"
proof -
  from assms obtain t where "child_at node i = Some t"
    by (rule shape_inner_child)
  then show ?thesis
    by (simp add: child_at_def split: if_splits)
qed

lemma leaf_insert:
  assumes leaf: "shape lo (2 * factor) 0 node" and p: "p \<le> node_n node"
  shows "\<exists>node'. node_insert_at node p x prev = Inr (node', False, prev)
    \<and> shape lo (2 * factor + 1) 0 node'
    \<and> inorder node = left_part (sub_of node) (key_of node) p
          @ right_part (sub_of node) (key_of node) p (node_n node)
    \<and> inorder node' = left_part (sub_of node) (key_of node) p
          @ x # right_part (sub_of node) (key_of node) p (node_n node)"
proof -
  have lay: "layout node" and n: "lo \<le> node_n node" "node_n node \<le> 2 * factor"
    and cs: "children node = replicate children_cap None"
    using leaf by simp_all
  have "node_n node < length (elems node)"
    using lay n by (simp add: layout_def elems_cap_def)
  from node_insert_at_slots [OF p this, of x prev]
  obtain node' where res: "node_insert_at node p x prev = Inr (node', False, prev)"
    and n': "node_n node' = node_n node + 1" and cs': "children node' = children node"
    and len: "length (elems node') = length (elems node)"
    and lo: "\<forall>i<p. elems node' ! i = elems node ! i" and mid: "elems node' ! p = x"
    and hi: "\<forall>i. p \<le> i \<and> i < node_n node \<longrightarrow> elems node' ! Suc i = elems node ! i"
    by (elim exE conjE) (rule that; simp)
  have leaf': "shape lo (2 * factor + 1) 0 node'"
    using lay n cs n' cs' len by (simp add: layout_def)
  have sub: "sub_of node i = []" "sub_of node' i = []" for i
    using shape_leaf_sub_of [OF leaf] shape_leaf_sub_of [OF leaf'] by simp_all
  have L: "left_part (sub_of node') (key_of node') p = left_part (sub_of node) (key_of node) p"
    using lo by (intro left_part_cong) (simp add: sub key_of_def)
  have R: "right_part (sub_of node') (key_of node') (Suc p) (Suc (node_n node))
      = right_part (sub_of node) (key_of node) p (node_n node)"
    using hi by (intro right_part_shift) (simp add: sub key_of_def)
  have "inorder node' = left_part (sub_of node') (key_of node') p @ sub_of node' p
      @ right_part (sub_of node') (key_of node') p (node_n node')"
    using p n' by (intro inorder_around) simp
  also have "right_part (sub_of node') (key_of node') p (node_n node')
      = x # right_part (sub_of node) (key_of node) p (node_n node)"
    using p n' mid by (simp add: right_part_Cons R sub key_of_def)
  finally have "inorder node' = left_part (sub_of node) (key_of node) p
      @ x # right_part (sub_of node) (key_of node) p (node_n node)"
    unfolding L by (simp add: sub)
  moreover have "inorder node = left_part (sub_of node) (key_of node) p
      @ right_part (sub_of node) (key_of node) p (node_n node)"
    using inorder_around [OF p] by (simp add: sub)
  ultimately show ?thesis
    using res leaf' by blast
qed

lemma child_replace:
  assumes inner: "shape lo hi (Suc h) node" and p: "p \<le> node_n node"
    and child': "shape factor (2 * factor) h child'"
  shows "shape lo hi (Suc h) (Bnode (node_n node) (elems node) ((children node)[p := Some child']))"
    and "inorder (Bnode (node_n node) (elems node) ((children node)[p := Some child']))
      = left_part (sub_of node) (key_of node) p @ inorder child'
          @ right_part (sub_of node) (key_of node) p (node_n node)"
proof -
  let ?node1 = "Bnode (node_n node) (elems node) ((children node)[p := Some child'])"
  have plen: "p < length (children node)"
    using inner p by (rule shape_inner_slot)
  have at: "child_at ?node1 i = (if i = p then Some child' else child_at node i)" for i
    using plen by (simp add: child_at_def)
  show "shape lo hi (Suc h) ?node1"
  proof (rule shape_SucI)
    show "layout ?node1"
      using shape_layout [OF inner] by (simp add: layout_def)
    show "lo \<le> node_n ?node1" "node_n ?node1 \<le> hi"
      using shape_bounds [OF inner] by simp_all
    fix i assume "i \<le> node_n ?node1"
    then have "i \<le> node_n node" by simp
    then show "\<exists>t. child_at ?node1 i = Some t \<and> shape factor (2 * factor) h t"
      using child' shape_inner_child [OF inner, of i] by (auto simp: at)
  qed
  have L: "left_part (sub_of ?node1) (key_of ?node1) p = left_part (sub_of node) (key_of node) p"
    by (intro left_part_cong) (simp add: sub_of_def key_of_def at)
  have R: "right_part (sub_of ?node1) (key_of ?node1) p (node_n node)
      = right_part (sub_of node) (key_of node) p (node_n node)"
    by (intro right_part_cong) (simp add: sub_of_def key_of_def at)
  have "inorder ?node1 = left_part (sub_of ?node1) (key_of ?node1) p @ sub_of ?node1 p
      @ right_part (sub_of ?node1) (key_of ?node1) p (node_n ?node1)"
    using p by (intro inorder_around) simp
  then show "inorder ?node1 = left_part (sub_of node) (key_of node) p @ inorder child'
      @ right_part (sub_of node) (key_of node) p (node_n node)"
    by (simp add: L R) (simp add: sub_of_def at inorder_opt_def)
qed


lemma split_insert:
  assumes inner: "shape lo (2 * factor) (Suc h) node" and p: "p \<le> node_n node"
    and child': "shape factor (2 * factor + 1) h child'" and full: "node_n child' = 2 * factor + 1"
  shows "\<exists>node2 node3.
      bt_split_node (Bnode (node_n node) (elems node) ((children node)[p := Some child'])) p
        = Inr (node2, elems child' ! factor)
    \<and> node_insert_at node2 p (elems child' ! factor) prev = Inr (node3, False, prev)
    \<and> shape lo (2 * factor + 1) (Suc h) node3
    \<and> inorder node3 = left_part (sub_of node) (key_of node) p @ inorder child'
          @ right_part (sub_of node) (key_of node) p (node_n node)"
proof -
  let ?node1 = "Bnode (node_n node) (elems node) ((children node)[p := Some child'])"
  let ?c1 = "Bnode factor (elems child') (children child')"
  let ?promoted = "elems child' ! factor"
  have lay: "length (elems node) = elems_cap" "length (children node) = children_cap"
    and n: "lo \<le> node_n node" "node_n node \<le> 2 * factor"
    using shape_layout [OF inner] shape_bounds [OF inner] by (simp_all add: layout_def)
  have lay': "length (elems child') = elems_cap" "length (children child') = children_cap"
    using shape_layout [OF child'] by (simp_all add: layout_def)
  have plen: "p < length (children node)"
    using inner p by (rule shape_inner_slot)
  have room: "node_n ?node1 + 2 \<le> length (children ?node1)"
    using lay n by (simp add: children_cap_def)
  have "p \<le> node_n ?node1" "children ?node1 ! p = Some child'"
    using p plen by simp_all
  from bt_split_node_slots [OF this(1) room this(2) lay']
  obtain node2 sib where
    split: "bt_split_node ?node1 p = Inr (node2, ?promoted)"
    and n2: "node_n node2 = node_n node" and es2: "elems node2 = elems node"
    and len2: "length (children node2) = length (children node)"
    and lo2: "\<forall>j<p. children node2 ! j = children ?node1 ! j"
    and at_p: "children node2 ! p = Some ?c1"
    and at_p1: "children node2 ! (p + 1) = Some sib"
    and hi2: "\<forall>j. p < j \<and> j \<le> node_n node \<longrightarrow> children node2 ! (j + 1) = children ?node1 ! j"
    and sib: "node_n sib = factor" "length (elems sib) = elems_cap"
      "length (children sib) = children_cap"
      "\<forall>k<factor. elems sib ! k = elems child' ! (factor + 1 + k)"
      "children child' ! 0 \<noteq> None \<longrightarrow>
          (\<forall>k\<le>factor. children sib ! k = children child' ! (factor + 1 + k))"
      "children child' ! 0 = None \<longrightarrow> children sib = replicate children_cap None"
    by (elim exE conjE) (rule that; simp)
  have "layout sib"
    using sib(2,3) by (simp add: layout_def)
  note prod = split_products [OF child' full sib(1) this sib(4,5,6)]
  have "p \<le> node_n node2" "node_n node2 < length (elems node2)"
    using p n lay by (simp_all add: n2 es2 elems_cap_def)
  from node_insert_at_slots [OF this, of ?promoted prev]
  obtain node3 where ins: "node_insert_at node2 p ?promoted prev = Inr (node3, False, prev)"
    and n3: "node_n node3 = node_n node + 1" and cs3: "children node3 = children node2"
    and len3: "length (elems node3) = length (elems node)"
    and lo3: "\<forall>i<p. elems node3 ! i = elems node ! i" and mid3: "elems node3 ! p = ?promoted"
    and hi3: "\<forall>i. p \<le> i \<and> i < node_n node \<longrightarrow> elems node3 ! Suc i = elems node ! i"
    by (elim exE conjE) (rule that; simp add: n2 es2)
  have in6: "node_n node + 1 < length (children node)"
    using lay n by (simp add: children_cap_def factor_def)
  have c_lt: "child_at node3 i = child_at node i" if "i < p" for i
    using that lo2 p in6 by (simp add: child_at_def cs3 len2)
  have c_p: "child_at node3 p = Some ?c1"
    using at_p p in6 by (simp add: child_at_def cs3 len2)
  have c_p1: "child_at node3 (Suc p) = Some sib"
    using at_p1 p in6 by (simp add: child_at_def cs3 len2)
  have c_gt: "child_at node3 (Suc (Suc i)) = child_at node (Suc i)" if "p \<le> i" and "i < node_n node"
    for i
    using that hi2 [rule_format, of "Suc i"] in6 by (simp add: child_at_def cs3 len2)
  have shape3: "shape lo (2 * factor + 1) (Suc h) node3"
  proof (rule shape_SucI)
    show "layout node3"
      using lay by (simp add: layout_def len3 cs3 len2)
    show "lo \<le> node_n node3" "node_n node3 \<le> 2 * factor + 1"
      using n by (simp_all add: n3)
    fix i assume i: "i \<le> node_n node3"
    consider "i < p" | "i = p" | "i = Suc p" | j where "i = Suc (Suc j)" "p \<le> j" "j < node_n node"
    proof (cases "i \<le> Suc p")
      case True
      then show ?thesis using that(1-3) by (cases "i < p"; cases "i = p") simp_all
    next
      case False
      then obtain j where "i = Suc (Suc j)" "p \<le> j"
        by (metis Suc_le_eq less_imp_Suc_add not_le add_Suc_right add_Suc le_add1)
      with i n3 that(4) show ?thesis by simp
    qed
    then show "\<exists>t. child_at node3 i = Some t \<and> shape factor (2 * factor) h t"
    proof cases
      case 1
      with p show ?thesis
        using shape_inner_child [OF inner, of i] by (auto simp: c_lt)
    next
      case 2
      then show ?thesis using prod(1) by (simp add: c_p)
    next
      case 3
      then show ?thesis using prod(2) by (simp add: c_p1)
    next
      case 4
      then show ?thesis
        using shape_inner_child [OF inner, of "Suc j"] by (auto simp: c_gt)
    qed
  qed
  have L: "left_part (sub_of node3) (key_of node3) p = left_part (sub_of node) (key_of node) p"
    using lo3 by (intro left_part_cong) (simp add: sub_of_def key_of_def c_lt)
  have R: "right_part (sub_of node3) (key_of node3) (Suc p) (Suc (node_n node))
      = right_part (sub_of node) (key_of node) p (node_n node)"
    using hi3 by (intro right_part_shift) (simp add: sub_of_def key_of_def c_gt)
  have "inorder node3 = left_part (sub_of node3) (key_of node3) p @ sub_of node3 p
      @ right_part (sub_of node3) (key_of node3) p (node_n node3)"
    using p n3 by (intro inorder_around) simp
  also have "right_part (sub_of node3) (key_of node3) p (node_n node3)
      = ?promoted # inorder sib @ right_part (sub_of node) (key_of node) p (node_n node)"
    using p by (simp add: n3 right_part_Cons R)
               (simp add: sub_of_def key_of_def c_p1 mid3 inorder_opt_def)
  also have "sub_of node3 p = inorder ?c1"
    by (simp add: sub_of_def c_p inorder_opt_def)
  finally have "inorder node3 = left_part (sub_of node) (key_of node) p @ inorder child'
      @ right_part (sub_of node) (key_of node) p (node_n node)"
    unfolding L by (simp add: prod(3))
  with split ins shape3 show ?thesis
    by blast
qed

section \<open>Insertion into a subtree\<close>

lemma bt_node_insert_found:
  assumes "bt_node_bsearch node elem = Inr (int i)" and "elems node ! i = elem"
    and "i < length (elems node)"
  shows "bt_node_insert node elem prev
    = Inr (node, True, case prev of None \<Rightarrow> None | Some v \<Rightarrow> Some elem)"
proof -
  have "(elems node)[i := elem] = elems node"
    using assms(2) by (metis list_update_id)
  then show ?thesis
    using assms by (subst bt_node_insert.simps) (simp add: bnode_rebuild split: option.splits)
qed

lemma bt_node_insert_absent:
  assumes "bt_node_bsearch node elem = Inr (- int p - 1)" and "p < length (children node)"
  shows "bt_node_insert node elem prev =
    (case children node ! p of
       None \<Rightarrow> node_insert_at node p elem prev
     | Some child \<Rightarrow>
         (case bt_node_insert child elem prev of
            Inl e \<Rightarrow> Inl e
          | Inr (child', replaced, prev') \<Rightarrow>
              if node_n child' \<le> 2 * factor
              then Inr (Bnode (node_n node) (elems node) ((children node)[p := Some child']),
                        replaced, prev')
              else
                (case bt_split_node
                        (Bnode (node_n node) (elems node) ((children node)[p := Some child'])) p of
                   Inl e \<Rightarrow> Inl e
                 | Inr (node2, promoted) \<Rightarrow> node_insert_at node2 p promoted prev')))"
proof -
  have p: "nat (- (- int p - 1) - 1) = p"
    by simp
  show ?thesis
    apply (subst bt_node_insert.simps)
    apply (simp only: assms(1) sum.case Let_def)
    unfolding p
    using assms(2) by simp
qed

lemma insert_mid:
  assumes "inorder node = L @ X @ R" and "sorted_wrt (<) (inorder node)"
    and "inorder node' = L @ X' @ R" and "sorted_wrt (<) X'" and "set X' = insert e (set X)"
    and "\<forall>a \<in> set L. a < (e::int)" and "\<forall>b \<in> set R. e < b"
  shows "sorted_wrt (<) (inorder node')"
    and "set (inorder node') = insert e (set (inorder node))"
    and "e \<in> set (inorder node) \<longleftrightarrow> e \<in> set X"
proof -
  show "sorted_wrt (<) (inorder node')"
    using assms(1-7) sorted_replace_mid [of L X R X' e] by simp
  show "set (inorder node') = insert e (set (inorder node))"
    using assms(1,3,5) by auto
  show "e \<in> set (inorder node) \<longleftrightarrow> e \<in> set X"
    using assms(1,6,7) by auto
qed


lemma bt_node_insert_inv:
  assumes "shape lo (2 * factor) h node" and "1 \<le> lo" and "sorted_wrt (<) (inorder node)"
  shows "\<exists>node' replaced prev'.
      bt_node_insert node elem prev = Inr (node', replaced, prev')
    \<and> shape lo (2 * factor + 1) h node'
    \<and> sorted_wrt (<) (inorder node')
    \<and> set (inorder node') = insert elem (set (inorder node))
    \<and> (replaced \<longleftrightarrow> elem \<in> set (inorder node))
    \<and> (replaced \<longrightarrow> node' = node \<and> prev' = (case prev of None \<Rightarrow> None | Some v \<Rightarrow> Some elem))
    \<and> (\<not> replaced \<longrightarrow> prev' = prev)"
  using assms
proof (induction h arbitrary: node lo)
  case 0
  note leaf = \<open>shape lo (2 * factor) 0 node\<close>
  have lay: "length (elems node) = elems_cap" "length (children node) = children_cap"
    and n: "lo \<le> node_n node" "node_n node \<le> 2 * factor"
    using shape_layout [OF leaf] shape_bounds [OF leaf] by (simp_all add: layout_def)
  have n_es: "node_n node \<le> length (elems node)"
    using lay n by (simp add: elems_cap_def)
  have "1 \<le> node_n node"
    using n "0.prems"(2) by simp
  then show ?case
    using n_es keys_sorted [OF "0.prems"(3) n_es]
  proof (cases rule: bt_node_bsearch_cases [of node elem])
    case (found i)
    have "i < length (elems node)"
      using found(1) n_es by linarith
    with found have "bt_node_insert node elem prev
        = Inr (node, True, case prev of None \<Rightarrow> None | Some v \<Rightarrow> Some elem)"
      by (intro bt_node_insert_found)
    moreover have "elem \<in> set (inorder node)"
      using found key_in_inorder [of i node] by simp
    moreover have "shape lo (2 * factor + 1) 0 node"
      using leaf n by (intro shape_weaken [OF leaf]) simp_all
    ultimately show ?thesis
      using "0.prems"(3) by (auto simp: insert_absorb)
  next
    case (absent p)
    have plen: "p < length (children node)"
      using absent(1) lay n by (simp add: children_cap_def)
    have "children node ! p = None"
      using shape_leaf_child_at [OF leaf, of p] plen by (simp add: child_at_def)
    then have unfold: "bt_node_insert node elem prev = node_insert_at node p elem prev"
      using bt_node_insert_absent [OF absent(2) plen, of prev] by simp
    let ?L = "left_part (sub_of node) (key_of node) p"
    let ?R = "right_part (sub_of node) (key_of node) p (node_n node)"
    from leaf_insert [OF leaf absent(1), of elem prev]
    obtain node' where ins: "node_insert_at node p elem prev = Inr (node', False, prev)"
      and leaf': "shape lo (2 * factor + 1) 0 node'"
      and io: "inorder node = ?L @ [] @ ?R" and io': "inorder node' = ?L @ [elem] @ ?R"
      by auto
    have sorted: "sorted_wrt (<) ?L" "sorted_wrt (<) ?R"
      using "0.prems"(3) io by (simp_all add: sorted_wrt_append)
    have below: "\<forall>a \<in> set ?L. a < elem"
      using absent(3) by (intro left_part_below sorted) (simp add: key_of_def)
    have above: "\<forall>b \<in> set ?R. elem < b"
      using absent(4) by (intro right_part_above sorted) (simp add: key_of_def)
    note mid = insert_mid [OF io "0.prems"(3) io' _ _ below above]
    have "sorted_wrt (<) (inorder node')" "set (inorder node') = insert elem (set (inorder node))"
      "elem \<notin> set (inorder node)"
      using mid by simp_all
    then show ?thesis
      using unfold ins leaf'
      by (intro exI [of _ node'] exI [of _ False] exI [of _ prev]) simp
  qed
next
  case (Suc h)
  note inner = \<open>shape lo (2 * factor) (Suc h) node\<close>
  have lay: "length (elems node) = elems_cap" "length (children node) = children_cap"
    and n: "lo \<le> node_n node" "node_n node \<le> 2 * factor"
    using shape_layout [OF inner] shape_bounds [OF inner] by (simp_all add: layout_def)
  have n_es: "node_n node \<le> length (elems node)"
    using lay n by (simp add: elems_cap_def)
  have "1 \<le> node_n node"
    using n Suc.prems(2) by simp
  then show ?case
    using n_es keys_sorted [OF Suc.prems(3) n_es]
  proof (cases rule: bt_node_bsearch_cases [of node elem])
    case (found i)
    have "i < length (elems node)"
      using found(1) n_es by linarith
    with found have "bt_node_insert node elem prev
        = Inr (node, True, case prev of None \<Rightarrow> None | Some v \<Rightarrow> Some elem)"
      by (intro bt_node_insert_found)
    moreover have "elem \<in> set (inorder node)"
      using found key_in_inorder [of i node] by simp
    moreover have "shape lo (2 * factor + 1) (Suc h) node"
      using n by (intro shape_weaken [OF inner]) simp_all
    ultimately show ?thesis
      using Suc.prems(3) by (auto simp: insert_absorb)
  next
    case (absent p)
    have plen: "p < length (children node)"
      using inner absent(1) by (rule shape_inner_slot)
    from shape_inner_child [OF inner absent(1)]
    obtain child where child_at: "child_at node p = Some child"
      and child: "shape factor (2 * factor) h child"
      by blast
    have at_p: "children node ! p = Some child"
      using child_at plen by (simp add: child_at_def)
    let ?L = "left_part (sub_of node) (key_of node) p"
    let ?R = "right_part (sub_of node) (key_of node) p (node_n node)"
    have io: "inorder node = ?L @ inorder child @ ?R"
      using inorder_around [OF absent(1)] by (simp add: sub_of_def child_at inorder_opt_def)
    have sorted: "sorted_wrt (<) ?L" "sorted_wrt (<) ?R" "sorted_wrt (<) (inorder child)"
      using Suc.prems(3) io by (simp_all add: sorted_wrt_append)
    have below: "\<forall>a \<in> set ?L. a < elem"
      using absent(3) by (intro left_part_below sorted) (simp add: key_of_def)
    have above: "\<forall>b \<in> set ?R. elem < b"
      using absent(4) by (intro right_part_above sorted) (simp add: key_of_def)
    have "1 \<le> factor"
      by (simp add: factor_def)
    from Suc.IH [OF child this sorted(3)]
    obtain child' replaced prev' where
      rec: "bt_node_insert child elem prev = Inr (child', replaced, prev')"
      and child': "shape factor (2 * factor + 1) h child'"
      and sorted': "sorted_wrt (<) (inorder child')"
      and set': "set (inorder child') = insert elem (set (inorder child))"
      and rep: "replaced \<longleftrightarrow> elem \<in> set (inorder child)"
      and same: "replaced \<longrightarrow> child' = child
          \<and> prev' = (case prev of None \<Rightarrow> None | Some v \<Rightarrow> Some elem)"
      and fresh: "\<not> replaced \<longrightarrow> prev' = prev"
      by (elim exE conjE) (rule that)
    let ?node1 = "Bnode (node_n node) (elems node) ((children node)[p := Some child'])"
    show ?thesis
    proof (cases "node_n child' \<le> 2 * factor")
      case True
      then have unfold: "bt_node_insert node elem prev = Inr (?node1, replaced, prev')"
        using bt_node_insert_absent [OF absent(2) plen, of prev] by (simp add: at_p rec)
      have "shape factor (2 * factor) h child'"
        using shape_bounds [OF child'] True by (intro shape_weaken [OF child']) simp_all
      note repl = child_replace [OF inner absent(1) this]
      have shape1: "shape lo (2 * factor + 1) (Suc h) ?node1"
        using n by (intro shape_weaken [OF repl(1)]) simp_all
      note mid = insert_mid [OF io Suc.prems(3) repl(2) sorted' set' below above]
      have "?node1 = node" if replaced
      proof -
        from that same have "child' = child" by simp
        then have "(children node)[p := Some child'] = children node"
          using at_p by (metis list_update_id)
        then show ?thesis by (simp add: bnode_rebuild)
      qed
      then show ?thesis
        using unfold shape1 mid rep same fresh
        by (intro exI [of _ ?node1] exI [of _ replaced] exI [of _ prev']) simp
    next
      case False
      have full: "node_n child' = 2 * factor + 1"
        using shape_bounds [OF child'] False by simp
      have "\<not> replaced"
      proof
        assume replaced
        with same have "child' = child" by simp
        with shape_bounds [OF child] False show False by simp
      qed
      with fresh have prev': "prev' = prev" by simp
      from split_insert [OF inner absent(1) child' full, of prev]
      obtain node2 node3 where
        split: "bt_split_node ?node1 p = Inr (node2, elems child' ! factor)"
        and ins: "node_insert_at node2 p (elems child' ! factor) prev = Inr (node3, False, prev)"
        and shape3: "shape lo (2 * factor + 1) (Suc h) node3"
        and io3: "inorder node3 = ?L @ inorder child' @ ?R"
        by (elim exE conjE) (rule that)
      have unfold: "bt_node_insert node elem prev = Inr (node3, False, prev)"
        using bt_node_insert_absent [OF absent(2) plen, of prev] False
        by (simp add: at_p rec split ins prev')
      note mid = insert_mid [OF io Suc.prems(3) io3 sorted' set' below above]
      show ?thesis
        using unfold shape3 mid rep \<open>\<not> replaced\<close>
        by (intro exI [of _ node3] exI [of _ False] exI [of _ prev]) simp
    qed
  qed
qed

section \<open>Insertion into a tree\<close>

lemma shape_height: "shape lo hi h node \<Longrightarrow> height node = h"
proof (induction h arbitrary: node lo hi)
  case 0
  then have "child_at node 0 = None"
    by (rule shape_leaf_child_at)
  then show ?case
    by (subst height.simps) simp
next
  case (Suc h)
  from shape_inner_child [OF Suc.prems, of 0]
  obtain t where "child_at node 0 = Some t" and "shape factor (2 * factor) h t"
    by auto
  with Suc.IH show ?case
    by (subst height.simps) simp
qed

lemma bt_inv_rootI:
  assumes "root bt = Some r" and "shape 1 (2 * factor) h r" and "sorted_wrt (<) (inorder r)"
  shows "bt_inv bt"
  using assms shape_height [OF assms(2)] by (simp add: bt_inv_def)

lemma bt_inv_rootD:
  assumes "bt_inv bt" and "root bt = Some r"
  shows "shape 1 (2 * factor) (height r) r" and "sorted_wrt (<) (inorder r)"
  using assms by (simp_all add: bt_inv_def)

lemma left_part_1: "left_part sub key (Suc 0) = sub 0 @ [key 0]"
  by (simp add: left_part_def)

lemma inorder_Bnode:
  "inorder (Bnode n es cs)
    = left_part (sub_of (Bnode n es cs)) (key_of (Bnode n es cs)) n @ sub_of (Bnode n es cs) n"
  by (simp add: inorder_eq [of "Bnode n es cs"])

lemma first_root:
  fixes elem :: int
  defines "r \<equiv> Bnode 1 ((elems calloc_bnode)[0 := elem]) ((children calloc_bnode)[0 := None])"
  shows "shape 1 (2 * factor) 0 r" and "inorder r = [elem]"
proof -
  have cs: "children r = replicate children_cap None"
    by (simp add: r_def calloc_bnode_def children_cap_def)
  have es: "length (elems r) = elems_cap" "elems r ! 0 = elem"
    by (simp_all add: r_def calloc_bnode_def elems_cap_def)
  show leaf: "shape 1 (2 * factor) 0 r"
    using cs es by (simp add: layout_def r_def factor_def)
  have "node_n r = Suc 0"
    by (simp add: r_def)
  then show "inorder r = [elem]"
    using es shape_leaf_sub_of [OF leaf]
    by (simp add: inorder_eq [of r] left_part_1 key_of_def)
qed

lemma root_split:
  assumes r': "shape 1 (2 * factor + 1) h r'" and full: "node_n r' = 2 * factor + 1"
  shows "\<exists>new_root promoted.
      bt_split_node (Bnode 1 (elems calloc_bnode) ((children calloc_bnode)[0 := Some r'])) 0
        = Inr (new_root, promoted)
    \<and> shape 1 (2 * factor) (Suc h)
          (Bnode (node_n new_root) ((elems new_root)[0 := promoted]) (children new_root))
    \<and> inorder (Bnode (node_n new_root) ((elems new_root)[0 := promoted]) (children new_root))
        = inorder r'"
proof -
  let ?nr0 = "Bnode 1 (elems calloc_bnode) ((children calloc_bnode)[0 := Some r'])"
  let ?c1 = "Bnode factor (elems r') (children r')"
  have child: "shape factor (2 * factor + 1) h r'"
    using full by (intro shape_weaken [OF r']) (simp_all add: factor_def)
  have lay': "length (elems r') = elems_cap" "length (children r') = children_cap"
    using shape_layout [OF r'] by (simp_all add: layout_def)
  have "0 \<le> node_n ?nr0" "node_n ?nr0 + 2 \<le> length (children ?nr0)"
    "children ?nr0 ! 0 = Some r'"
    by (simp_all add: calloc_bnode_simps children_cap_def factor_def)
  from bt_split_node_slots [OF this lay']
  obtain new_root sib where
    split: "bt_split_node ?nr0 0 = Inr (new_root, elems r' ! factor)"
    and nr: "node_n new_root = 1" "length (elems new_root) = elems_cap"
      "length (children new_root) = children_cap"
      "children new_root ! 0 = Some ?c1" "children new_root ! (0 + 1) = Some sib"
    and sib: "node_n sib = factor" "length (elems sib) = elems_cap"
      "length (children sib) = children_cap"
      "\<forall>k<factor. elems sib ! k = elems r' ! (factor + 1 + k)"
      "children r' ! 0 \<noteq> None \<longrightarrow>
          (\<forall>k\<le>factor. children sib ! k = children r' ! (factor + 1 + k))"
      "children r' ! 0 = None \<longrightarrow> children sib = replicate children_cap None"
    by (elim exE conjE) (rule that; simp add: calloc_bnode_simps)
  have "layout sib"
    using sib(2,3) by (simp add: layout_def)
  note prod = split_products [OF child full sib(1) this sib(4,5,6)]
  let ?root = "Bnode (node_n new_root) ((elems new_root)[0 := elems r' ! factor]) (children new_root)"
  have at: "child_at ?root 0 = Some ?c1" "child_at ?root 1 = Some sib"
    using nr by (simp_all add: child_at_def children_cap_def)
  have shape: "shape 1 (2 * factor) (Suc h) ?root"
  proof (rule shape_SucI)
    show "layout ?root"
      using nr by (simp add: layout_def)
    show "1 \<le> node_n ?root" "node_n ?root \<le> 2 * factor"
      using nr by (simp_all add: factor_def)
    fix i assume "i \<le> node_n ?root"
    then have "i = 0 \<or> i = 1"
      using nr by auto
    then show "\<exists>t. child_at ?root i = Some t \<and> shape factor (2 * factor) h t"
      using at prod by auto
  qed
  have "inorder ?root = inorder ?c1 @ elems r' ! factor # inorder sib"
    using nr at
    by (simp add: inorder_Bnode left_part_1 sub_of_def key_of_def inorder_opt_def
        elems_cap_def)
  with prod(3) have "inorder ?root = inorder r'"
    by simp
  with split shape show ?thesis
    by blast
qed

lemma bt_insert_inv:
  assumes inv: "bt_inv bt"
  shows "\<exists>bt' replaced prev'.
      bt_insert bt elem prev = Inr (bt', replaced, prev')
    \<and> bt_inv bt' \<and> size_bt bt' = size_bt bt
    \<and> sorted_wrt (<) (bt_keys bt')
    \<and> set (bt_keys bt') = insert elem (set (bt_keys bt))
    \<and> (replaced \<longleftrightarrow> elem \<in> set (bt_keys bt))
    \<and> (replaced \<longrightarrow> bt' = bt \<and> prev' = (case prev of None \<Rightarrow> None | Some v \<Rightarrow> Some elem))
    \<and> (\<not> replaced \<longrightarrow> prev' = prev)"
proof (cases "root bt")
  case None
  let ?r = "Bnode 1 ((elems calloc_bnode)[0 := elem]) ((children calloc_bnode)[0 := None])"
  have res: "bt_insert bt elem prev = Inr (bt\<lparr>root := Some ?r\<rparr>, False, prev)"
    using None by (simp add: bt_insert_def)
  have "bt_inv (bt\<lparr>root := Some ?r\<rparr>)"
  proof (rule bt_inv_rootI)
    show "root (bt\<lparr>root := Some ?r\<rparr>) = Some ?r"
      by simp
    show "shape 1 (2 * factor) 0 ?r"
      by (rule first_root(1))
    show "sorted_wrt (<) (inorder ?r)"
      unfolding first_root(2) by simp
  qed
  then show ?thesis
    using res None first_root(2) [of elem]
    by (intro exI [of _ "bt\<lparr>root := Some ?r\<rparr>"] exI [of _ False] exI [of _ prev])
       (simp add: bt_keys_def inorder_opt_def)
next
  case (Some r)
  note shape = bt_inv_rootD [OF inv Some]
  have keys: "bt_keys bt = inorder r"
    using Some by (simp add: bt_keys_def inorder_opt_def)
  from bt_node_insert_inv [OF shape(1) order_refl shape(2), of elem prev]
  obtain r' replaced prev' where
    rec: "bt_node_insert r elem prev = Inr (r', replaced, prev')"
    and r': "shape 1 (2 * factor + 1) (height r) r'"
    and sorted': "sorted_wrt (<) (inorder r')"
    and set': "set (inorder r') = insert elem (set (inorder r))"
    and rep: "replaced \<longleftrightarrow> elem \<in> set (inorder r)"
    and same: "replaced \<longrightarrow> r' = r
        \<and> prev' = (case prev of None \<Rightarrow> None | Some v \<Rightarrow> Some elem)"
    and fresh: "\<not> replaced \<longrightarrow> prev' = prev"
    by (elim exE conjE) (rule that)
  show ?thesis
  proof (cases "node_n r' > 2 * factor")
    case False
    then have res: "bt_insert bt elem prev = Inr (bt\<lparr>root := Some r'\<rparr>, replaced, prev')"
      using Some rec by (simp add: bt_insert_def)
    have "shape 1 (2 * factor) (height r) r'"
      using shape_bounds [OF r'] False by (intro shape_weaken [OF r']) simp_all
    then have "bt_inv (bt\<lparr>root := Some r'\<rparr>)"
      using sorted' by (intro bt_inv_rootI [of _ r' "height r"]) simp_all
    moreover have "bt\<lparr>root := Some r'\<rparr> = bt" if replaced
      using that same Some by simp
    ultimately show ?thesis
      using res sorted' set' rep same fresh keys
      by (intro exI [of _ "bt\<lparr>root := Some r'\<rparr>"] exI [of _ replaced] exI [of _ prev'])
         (simp add: bt_keys_def inorder_opt_def)
  next
    case True
    then have full: "node_n r' = 2 * factor + 1"
      using shape_bounds [OF r'] by simp
    have "\<not> replaced"
    proof
      assume replaced
      with same have "r' = r" by simp
      with shape_bounds [OF shape(1)] True show False by simp
    qed
    from root_split [OF r' full]
    obtain new_root promoted where
      split: "bt_split_node (Bnode 1 (elems calloc_bnode) ((children calloc_bnode)[0 := Some r'])) 0
          = Inr (new_root, promoted)"
      and nshape: "shape 1 (2 * factor) (Suc (height r))
          (Bnode (node_n new_root) ((elems new_root)[0 := promoted]) (children new_root))"
      and nio: "inorder (Bnode (node_n new_root) ((elems new_root)[0 := promoted])
          (children new_root)) = inorder r'"
      by (elim exE conjE) (rule that)
    let ?root = "Bnode (node_n new_root) ((elems new_root)[0 := promoted]) (children new_root)"
    have res: "bt_insert bt elem prev = Inr (bt\<lparr>root := Some ?root\<rparr>, replaced, prev')"
      using Some rec True split by (simp add: bt_insert_def)
    have "bt_inv (bt\<lparr>root := Some ?root\<rparr>)"
      using nshape nio sorted' by (intro bt_inv_rootI [of _ ?root "Suc (height r)"]) simp_all
    then show ?thesis
      using res sorted' set' rep fresh keys nio \<open>\<not> replaced\<close>
      by (intro exI [of _ "bt\<lparr>root := Some ?root\<rparr>"] exI [of _ replaced] exI [of _ prev'])
         (simp add: bt_keys_def inorder_opt_def)
  qed
qed

section \<open>Sequences of insertions\<close>

lemma bt_inv_bt_mk: "bt_inv bt_mk"
  by (simp add: bt_inv_def bt_mk_def)

lemma bt_insert_calls_inv:
  assumes "bt_inv bt"
  shows "\<exists>bt'. bt_insert_calls bt calls = Inr bt' \<and> bt_inv bt' \<and> size_bt bt' = size_bt bt
    \<and> set (bt_keys bt') = set (bt_keys bt) \<union> fst ` set calls"
  using assms
proof (induction calls arbitrary: bt)
  case Nil
  then show ?case by simp
next
  case (Cons call calls)
  obtain elem prev where call: "call = (elem, prev)"
    by (cases call)
  from bt_insert_inv [OF Cons.prems, of elem prev]
  obtain bt1 replaced prev' where
    step: "bt_insert bt elem prev = Inr (bt1, replaced, prev')"
    and inv1: "bt_inv bt1" and size1: "size_bt bt1 = size_bt bt"
    and set1: "set (bt_keys bt1) = insert elem (set (bt_keys bt))"
    by (elim exE conjE) (rule that)
  from Cons.IH [OF inv1]
  obtain bt' where rest: "bt_insert_calls bt1 calls = Inr bt'" and inv': "bt_inv bt'"
    and size': "size_bt bt' = size_bt bt1"
    and set': "set (bt_keys bt') = set (bt_keys bt1) \<union> fst ` set calls"
    by (elim exE conjE) (rule that)
  have "bt_insert_calls bt (call # calls) = Inr bt'"
    by (simp add: call step rest)
  moreover have "set (bt_keys bt') = set (bt_keys bt) \<union> fst ` set (call # calls)"
    by (simp add: set' set1 call)
  ultimately show ?case
    using inv' size' size1 by simp
qed

section \<open>The invariants in the words of the specification\<close>

lemma cmp_less_iff: "bt_default_cmp a b < 0 \<longleftrightarrow> a < b"
  by (simp add: bt_default_cmp_def)

lemma cmp_greater_iff: "bt_default_cmp a b > 0 \<longleftrightarrow> b < a"
  by (simp add: bt_default_cmp_def)

lemma cmp_eq_iff: "bt_default_cmp a b = 0 \<longleftrightarrow> a = b"
  by (simp add: bt_default_cmp_def)

lemma keys_increasing_iff: "keys_increasing node \<longleftrightarrow> sorted_wrt (<) (keys node)"
  by (simp add: keys_increasing_def cmp_less_iff)

lemma sorted_ranges:
  assumes "sorted_wrt (<) (inorder node)" and "i < node_n node"
  shows "\<forall>k \<in> set (sub_of node i). k < key_of node i"
    and "\<forall>k \<in> set (sub_of node (Suc i)). key_of node i < k"
proof -
  have "inorder node = left_part (sub_of node) (key_of node) i @ sub_of node i
      @ key_of node i # sub_of node (Suc i)
      @ right_part (sub_of node) (key_of node) (Suc i) (node_n node)"
    using assms(2) by (simp add: inorder_around [of i node] right_part_Cons)
  with assms(1) show "\<forall>k \<in> set (sub_of node i). k < key_of node i"
    and "\<forall>k \<in> set (sub_of node (Suc i)). key_of node i < k"
    by (simp_all add: sorted_wrt_append)
qed

lemma ranges_ok_sorted:
  assumes "sorted_wrt (<) (inorder node)"
  shows "ranges_ok node"
  using sorted_ranges [OF assms]
  by (simp add: ranges_ok_def cmp_less_iff cmp_greater_iff sub_of_def key_of_def)

lemma nodes_head: "nodes node = node # tl (nodes node)"
  by (simp only: nodes.simps [of node] list.sel)

lemma nodes_tail:
  "tl (nodes node)
    = concat (map (\<lambda>i. case child_at node i of None \<Rightarrow> [] | Some t \<Rightarrow> nodes t)
                [0..<Suc (node_n node)])"
  by (simp only: nodes.simps [of node] list.sel)

lemma nodes_leaf:
  assumes "shape lo hi 0 node"
  shows "nodes node = [node]"
proof -
  have "child_at node i = None" for i
    using assms by (rule shape_leaf_child_at)
  then show ?thesis
    by (simp add: nodes.simps [of node])
qed

lemma in_nodes_inner:
  assumes "nd \<in> set (tl (nodes node))"
  obtains i t where "i \<le> node_n node" and "child_at node i = Some t" and "nd \<in> set (nodes t)"
proof -
  from assms obtain i t where "i < Suc (node_n node)" and "Some t = child_at node i"
    and "nd \<in> set (nodes t)"
    unfolding nodes_tail by (auto simp del: upt_Suc split: option.splits)
  then show thesis
    using that [of i t] by simp
qed

lemma in_leaf_depths_inner:
  assumes "child_at node 0 \<noteq> None" and "d \<in> set (leaf_depths node)"
  obtains i t d' where "i \<le> node_n node" and "child_at node i = Some t"
    and "d' \<in> set (leaf_depths t)" and "d = Suc d'"
proof -
  have "leaf_depths node
      = concat (map (\<lambda>i. case child_at node i of None \<Rightarrow> [] | Some t \<Rightarrow> map Suc (leaf_depths t))
                  [0..<Suc (node_n node)])"
    using assms(1) by (simp only: leaf_depths.simps [of node] if_False)
  with assms(2) obtain i t d' where "i < Suc (node_n node)" and "Some t = child_at node i"
    and "d' \<in> set (leaf_depths t)" and "d = Suc d'"
    by (auto simp del: upt_Suc split: option.splits)
  then show thesis
    using that [of i t d'] by simp
qed

lemma shape_invariants:
  assumes "shape lo hi h node" and "hi \<le> 2 * factor" and "sorted_wrt (<) (inorder node)"
  shows "(\<forall>nd \<in> set (nodes node). keys_increasing nd \<and> ranges_ok nd)
    \<and> (\<forall>d \<in> set (leaf_depths node). d = h)
    \<and> (\<forall>nd \<in> set (tl (nodes node)). factor \<le> node_n nd \<and> node_n nd \<le> 2 * factor)"
  using assms
proof (induction h arbitrary: node lo hi)
  case 0
  note leaf = \<open>shape lo hi 0 node\<close>
  have "node_n node \<le> length (elems node)"
    using shape_layout [OF leaf] shape_bounds [OF leaf] "0.prems"(2)
    by (simp add: layout_def elems_cap_def)
  then have "keys_increasing node"
    using "0.prems"(3) by (simp add: keys_increasing_iff keys_sorted)
  moreover have "ranges_ok node"
    using "0.prems"(3) by (rule ranges_ok_sorted)
  moreover have "leaf_depths node = [0]"
    using shape_leaf_child_at [OF leaf, of 0] by (simp add: leaf_depths.simps [of node])
  ultimately show ?case
    by (simp add: nodes_leaf [OF leaf])
next
  case (Suc h)
  note inner = \<open>shape lo hi (Suc h) node\<close>
  have "node_n node \<le> length (elems node)"
    using shape_layout [OF inner] shape_bounds [OF inner] Suc.prems(2)
    by (simp add: layout_def elems_cap_def)
  then have own: "keys_increasing node" "ranges_ok node"
    using Suc.prems(3) by (simp_all add: keys_increasing_iff keys_sorted ranges_ok_sorted)
  have kid: "(\<forall>nd \<in> set (nodes t). keys_increasing nd \<and> ranges_ok nd)
      \<and> (\<forall>d \<in> set (leaf_depths t). d = h)
      \<and> (\<forall>nd \<in> set (tl (nodes t)). factor \<le> node_n nd \<and> node_n nd \<le> 2 * factor)
      \<and> factor \<le> node_n t \<and> node_n t \<le> 2 * factor"
    if "i \<le> node_n node" and "child_at node i = Some t" for i t
  proof -
    from shape_inner_child [OF inner that(1)] that(2)
    have t: "shape factor (2 * factor) h t"
      by auto
    have "sorted_wrt (<) (inorder t)"
      using sub_sorted [OF Suc.prems(3) that(1)] that(2) by (simp add: sub_of_def inorder_opt_def)
    from Suc.IH [OF t order_refl this] shape_bounds [OF t] show ?thesis
      by simp
  qed
  have below: "keys_increasing nd \<and> ranges_ok nd \<and> factor \<le> node_n nd \<and> node_n nd \<le> 2 * factor"
    if "nd \<in> set (tl (nodes node))" for nd
  proof -
    from that obtain i t where it: "i \<le> node_n node" "child_at node i = Some t"
      and nd: "nd \<in> set (nodes t)"
      by (rule in_nodes_inner)
    from nd have "nd = t \<or> nd \<in> set (tl (nodes t))"
      using nodes_head [of t] by (metis set_ConsD)
    with kid [OF it] nd show ?thesis
      by auto
  qed
  have "d = Suc h" if "d \<in> set (leaf_depths node)" for d
  proof -
    from shape_inner_child [OF inner, of 0] have "child_at node 0 \<noteq> None"
      by auto
    from this that obtain i t d' where "i \<le> node_n node" "child_at node i = Some t"
      "d' \<in> set (leaf_depths t)" "d = Suc d'"
      by (rule in_leaf_depths_inner)
    with kid [of i t] show ?thesis
      by simp
  qed
  moreover have "keys_increasing nd \<and> ranges_ok nd" if "nd \<in> set (nodes node)" for nd
  proof -
    from that have "nd = node \<or> nd \<in> set (tl (nodes node))"
      using nodes_head [of node] by (metis set_ConsD)
    with own below show ?thesis
      by auto
  qed
  ultimately show ?case
    using below by blast
qed

lemma bt_inv_invariants:
  assumes "bt_inv bt" and "root bt = Some r"
  shows "btree_invariants r"
proof -
  note shape = bt_inv_rootD [OF assms]
  from shape_invariants [OF shape(1) order_refl shape(2)] shape_bounds [OF shape(1)]
  show ?thesis
    by (simp add: btree_invariants_def)
qed

lemma bt_insert_calls_reach:
  assumes "bt_insert_calls bt_mk calls = Inr bt"
  shows "bt_inv bt" and "size_bt bt = 0" and "set (bt_keys bt) = fst ` set calls"
  using bt_insert_calls_inv [OF bt_inv_bt_mk, of calls] assms
  by (auto simp: bt_mk_def bt_keys_def inorder_opt_def)

text \<open>
  Claim C1. Every sequence of \<^verbatim>\<open>bt_insert\<close> calls on the empty tree of \<^verbatim>\<open>bt_mk\<close> runs
  without a fault and leaves a tree in which: every node's keys are strictly increasing
  under the comparison, every key below child slot \<open>i\<close> compares less than key \<open>i\<close> and
  every key below slot \<open>i + 1\<close> compares greater, all leaves are at the same depth,
  every node but the root holds between \<open>factor\<close> and \<open>2 * factor\<close> keys, and the root
  holds at most \<open>2 * factor\<close>.
\<close>

theorem bt_insert_calls_invariants:
  "\<exists>bt. bt_insert_calls bt_mk calls = Inr bt
     \<and> (case root bt of None \<Rightarrow> True | Some r \<Rightarrow> btree_invariants r)"
proof -
  from bt_insert_calls_inv [OF bt_inv_bt_mk, of calls]
  obtain bt where run: "bt_insert_calls bt_mk calls = Inr bt" and inv: "bt_inv bt"
    by (elim exE conjE) (rule that)
  have "case root bt of None \<Rightarrow> True | Some r \<Rightarrow> btree_invariants r"
    using bt_inv_invariants [OF inv] by (cases "root bt") simp_all
  with run show ?thesis
    by blast
qed

theorem bt_insert_calls_invariants_witness:
  "bt_insert_calls bt_mk
     [(10, None), (20, None), (5, None), (6, None), (12, None), (30, None), (7, None), (17, None)]
   = Inr \<lparr>root = Some (Bnode 1 [10, 0, 0, 0, 0]
             [Some (Bnode 3 [5, 6, 7, 12, 20] [None, None, None, None, None, None]),
              Some (Bnode 4 [12, 17, 20, 30, 0] [None, None, None, None, None, None]),
              None, None, None, None]),
          size_bt = 0\<rparr>
   \<and> btree_invariants (Bnode 1 [10, 0, 0, 0, 0]
             [Some (Bnode 3 [5, 6, 7, 12, 20] [None, None, None, None, None, None]),
              Some (Bnode 4 [12, 17, 20, 30, 0] [None, None, None, None, None, None]),
              None, None, None, None])"
proof -
  have run: "bt_insert_calls bt_mk
     [(10, None), (20, None), (5, None), (6, None), (12, None), (30, None), (7, None), (17, None)]
   = Inr \<lparr>root = Some (Bnode 1 [10, 0, 0, 0, 0]
             [Some (Bnode 3 [5, 6, 7, 12, 20] [None, None, None, None, None, None]),
              Some (Bnode 4 [12, 17, 20, 30, 0] [None, None, None, None, None, None]),
              None, None, None, None]),
          size_bt = 0\<rparr>"
    by code_simp
  from bt_insert_calls_invariants
    [of "[(10, None), (20, None), (5, None), (6, None), (12, None), (30, None), (7, None), (17, None)]"]
  obtain bt where "bt_insert_calls bt_mk
     [(10, None), (20, None), (5, None), (6, None), (12, None), (30, None), (7, None), (17, None)]
     = Inr bt"
    and "case root bt of None \<Rightarrow> True | Some r \<Rightarrow> btree_invariants r"
    by (elim exE conjE) (rule that)
  then show ?thesis
    unfolding run by auto
qed


text \<open>
  Claim C3. On a tree reached by \<^verbatim>\<open>bt_insert\<close> calls from \<^verbatim>\<open>bt_mk\<close>: when a stored
  element compares equal to \<open>elem\<close>, \<^verbatim>\<open>bt_insert(bt, elem, prev)\<close> returns \<^verbatim>\<open>true\<close>,
  the cell behind a non-\<^verbatim>\<open>NULL\<close> \<^verbatim>\<open>prev\<close> receives that stored element, and the tree
  afterwards is the tree before with \<open>elem\<close> in that element's slot: every node's key
  count, children and other keys are as they were. When no stored element compares
  equal, the call returns \<^verbatim>\<open>false\<close>.
\<close>

theorem bt_insert_replace:
  assumes "bt_insert_calls bt_mk calls = Inr bt"
  shows "((\<exists>k \<in> set (bt_keys bt). bt_default_cmp elem k = 0) \<longrightarrow>
            (\<exists>k \<in> set (bt_keys bt). bt_default_cmp elem k = 0
               \<and> bt_insert bt elem prev
                   = Inr (bt, True, case prev of None \<Rightarrow> None | Some v \<Rightarrow> Some k))
            \<and> elem \<in> set (bt_keys bt))
       \<and> (\<not> (\<exists>k \<in> set (bt_keys bt). bt_default_cmp elem k = 0) \<longrightarrow>
            (\<exists>bt' prev'. bt_insert bt elem prev = Inr (bt', False, prev')))"
proof -
  have inv: "bt_inv bt"
    using assms by (rule bt_insert_calls_reach)
  from bt_insert_inv [OF inv, of elem prev]
  obtain bt' replaced prev' where
    res: "bt_insert bt elem prev = Inr (bt', replaced, prev')"
    and rep: "replaced \<longleftrightarrow> elem \<in> set (bt_keys bt)"
    and same: "replaced \<longrightarrow> bt' = bt
        \<and> prev' = (case prev of None \<Rightarrow> None | Some v \<Rightarrow> Some elem)"
    by (elim exE conjE) (rule that)
  have stored: "(\<exists>k \<in> set (bt_keys bt). bt_default_cmp elem k = 0) \<longleftrightarrow> elem \<in> set (bt_keys bt)"
    by (auto simp: cmp_eq_iff)
  show ?thesis
  proof (cases "elem \<in> set (bt_keys bt)")
    case True
    with rep same res
    have "bt_insert bt elem prev = Inr (bt, True, case prev of None \<Rightarrow> None | Some v \<Rightarrow> Some elem)"
      by simp
    with True show ?thesis
      unfolding stored by (auto simp: cmp_eq_iff)
  next
    case False
    with rep res show ?thesis
      unfolding stored by auto
  qed
qed

theorem bt_insert_replace_witness:
  "bt_insert
     \<lparr>root = Some (Bnode 1 [10, 0, 0, 0, 0]
               [Some (Bnode 3 [5, 6, 7, 12, 20] [None, None, None, None, None, None]),
                Some (Bnode 4 [12, 17, 20, 30, 0] [None, None, None, None, None, None]),
                None, None, None, None]),
      size_bt = 0\<rparr> 17 (Some 99)
   = Inr (\<lparr>root = Some (Bnode 1 [10, 0, 0, 0, 0]
               [Some (Bnode 3 [5, 6, 7, 12, 20] [None, None, None, None, None, None]),
                Some (Bnode 4 [12, 17, 20, 30, 0] [None, None, None, None, None, None]),
                None, None, None, None]),
           size_bt = 0\<rparr>, True, Some 17)
   \<and> (\<exists>bt' prev'. bt_insert
     \<lparr>root = Some (Bnode 1 [10, 0, 0, 0, 0]
               [Some (Bnode 3 [5, 6, 7, 12, 20] [None, None, None, None, None, None]),
                Some (Bnode 4 [12, 17, 20, 30, 0] [None, None, None, None, None, None]),
                None, None, None, None]),
      size_bt = 0\<rparr> 18 (Some 99) = Inr (bt', False, prev'))"
proof -
  let ?calls = "[(10, None), (20, None), (5, None), (6, None), (12, None), (30, None),
    (7, None), (17::int, None::int option)]"
  let ?bt = "\<lparr>root = Some (Bnode 1 [10, 0, 0, 0, 0]
               [Some (Bnode 3 [5, 6, 7, 12, 20] [None, None, None, None, None, None]),
                Some (Bnode 4 [12, 17, 20, 30, 0] [None, None, None, None, None, None]),
                None, None, None, None]),
      size_bt = 0\<rparr>"
  have run: "bt_insert_calls bt_mk ?calls = Inr ?bt"
    by code_simp
  have keys: "bt_keys ?bt = [5, 6, 7, 10, 12, 17, 20, 30]"
    by code_simp
  from bt_insert_replace [OF run, of 17 "Some 99"] bt_insert_replace [OF run, of 18 "Some 99"]
  show ?thesis
    unfolding keys by (auto simp: bt_default_cmp_def)
qed

text \<open>
  Claim C10. On a tree that satisfies the invariants of the data model (every tree
  reached through the interface does), a call of \<^verbatim>\<open>bt_insert\<close> that returns \<^verbatim>\<open>false\<close>
  leaves the cell behind \<^verbatim>\<open>prev\<close> as it was.
\<close>

theorem bt_insert_prev_untouched:
  assumes "bt_inv bt" and "bt_insert bt elem prev = Inr (bt', False, prev')"
  shows "prev' = prev"
  using bt_insert_inv [OF assms(1), of elem prev] assms(2) by auto

theorem bt_insert_prev_untouched_witness:
  "bt_inv \<lparr>root = Some (Bnode 1 [10, 0, 0, 0, 0]
               [Some (Bnode 3 [5, 6, 7, 12, 20] [None, None, None, None, None, None]),
                Some (Bnode 4 [12, 17, 20, 30, 0] [None, None, None, None, None, None]),
                None, None, None, None]),
      size_bt = 0\<rparr>
   \<and> bt_insert
     \<lparr>root = Some (Bnode 1 [10, 0, 0, 0, 0]
               [Some (Bnode 3 [5, 6, 7, 12, 20] [None, None, None, None, None, None]),
                Some (Bnode 4 [12, 17, 20, 30, 0] [None, None, None, None, None, None]),
                None, None, None, None]),
      size_bt = 0\<rparr> 18 (Some 99)
   = Inr (\<lparr>root = Some (Bnode 2 [10, 18, 0, 0, 0]
               [Some (Bnode 3 [5, 6, 7, 12, 20] [None, None, None, None, None, None]),
                Some (Bnode 2 [12, 17, 18, 20, 30] [None, None, None, None, None, None]),
                Some (Bnode 2 [20, 30, 0, 0, 0] [None, None, None, None, None, None]),
                None, None, None]),
           size_bt = 0\<rparr>, False, Some 99)"
proof -
  let ?bt = "\<lparr>root = Some (Bnode 1 [10, 0, 0, 0, 0]
               [Some (Bnode 3 [5, 6, 7, 12, 20] [None, None, None, None, None, None]),
                Some (Bnode 4 [12, 17, 20, 30, 0] [None, None, None, None, None, None]),
                None, None, None, None]),
      size_bt = 0\<rparr>"
  have inv: "bt_inv ?bt"
    by code_simp
  have run: "bt_insert ?bt 18 (Some 99)
      = Inr (\<lparr>root = Some (Bnode 2 [10, 18, 0, 0, 0]
               [Some (Bnode 3 [5, 6, 7, 12, 20] [None, None, None, None, None, None]),
                Some (Bnode 2 [12, 17, 18, 20, 30] [None, None, None, None, None, None]),
                Some (Bnode 2 [20, 30, 0, 0, 0] [None, None, None, None, None, None]),
                None, None, None]),
           size_bt = 0\<rparr>, False, Some 99)"
    by code_simp
  from bt_insert_prev_untouched [OF inv run] inv run show ?thesis
    by simp
qed

section \<open>Lookup\<close>

lemma nodes_self: "node \<in> set (nodes node)"
  using nodes_head [of node] by (metis list.set_intros(1))

lemma nodes_child:
  assumes "i \<le> node_n node" and "child_at node i = Some t" and "nd \<in> set (nodes t)"
  shows "nd \<in> set (nodes node)"
proof -
  have "nd \<in> set (concat (map (\<lambda>i. case child_at node i of None \<Rightarrow> [] | Some t \<Rightarrow> nodes t)
      [0..<Suc (node_n node)]))"
    using assms by (auto simp del: upt_Suc intro!: bexI [of _ i])
  then have "nd \<in> set (tl (nodes node))"
    by (simp only: nodes_tail)
  then show ?thesis
    using nodes_head [of node] by (metis list.set_intros(2))
qed

lemma lookup_loop_None: "lookup_loop None elem cell = Inr (None, cell)"
  by (subst lookup_loop.simps) simp

lemma lookup_loop_found:
  assumes "bt_node_bsearch c elem = Inr (int i)"
  shows "lookup_loop (Some c) elem cell
    = Inr (Some (Elem_ref c i), case cell of None \<Rightarrow> None | Some v \<Rightarrow> Some (Some c))"
  using assms by (subst lookup_loop.simps) (simp add: Let_def)

lemma lookup_loop_absent:
  assumes "bt_node_bsearch c elem = Inr (- int p - 1)" and "p < length (children c)"
  shows "lookup_loop (Some c) elem cell
    = lookup_loop (children c ! p) elem (case cell of None \<Rightarrow> None | Some v \<Rightarrow> Some (Some c))"
  using assms by (subst lookup_loop.simps) (simp add: Let_def)

lemma left_part_ranges:
  assumes "\<And>i. i < p \<Longrightarrow> key i < (e::int)"
    and "\<And>i. i < p \<Longrightarrow> \<forall>k \<in> set (sub i). k < key i"
  shows "\<forall>a \<in> set (left_part sub key p). a < e"
proof
  fix a
  assume "a \<in> set (left_part sub key p)"
  then obtain i where i: "i < p" and a: "a \<in> set (sub i) \<or> a = key i"
    by (auto simp: left_part_def)
  from a show "a < e"
  proof
    assume "a \<in> set (sub i)"
    with assms(2) [OF i] have "a < key i"
      by simp
    with assms(1) [OF i] show ?thesis
      by simp
  next
    assume "a = key i"
    with assms(1) [OF i] show ?thesis
      by simp
  qed
qed

lemma right_part_ranges:
  assumes "\<And>i. p \<le> i \<Longrightarrow> i < n \<Longrightarrow> (e::int) < key i"
    and "\<And>i. p \<le> i \<Longrightarrow> i < n \<Longrightarrow> \<forall>k \<in> set (sub (Suc i)). key i < k"
  shows "\<forall>b \<in> set (right_part sub key p n). e < b"
proof
  fix b
  assume "b \<in> set (right_part sub key p n)"
  then obtain i where i: "p \<le> i" "i < n" and b: "b = key i \<or> b \<in> set (sub (Suc i))"
    by (auto simp: right_part_def)
  from b show "e < b"
  proof
    assume "b = key i"
    with assms(1) [OF i] show ?thesis
      by simp
  next
    assume "b \<in> set (sub (Suc i))"
    with assms(2) [OF i] have "key i < b"
      by simp
    with assms(1) [OF i] show ?thesis
      by simp
  qed
qed

lemma ranges_ok_sub:
  assumes "ranges_ok node" and "i < node_n node"
  shows "\<forall>k \<in> set (sub_of node i). k < key_of node i"
    and "\<forall>k \<in> set (sub_of node (Suc i)). key_of node i < k"
  using assms
  by (simp_all add: ranges_ok_def sub_of_def key_of_def cmp_less_iff cmp_greater_iff)

lemma lookup_loop_ranges:
  assumes "\<forall>nd \<in> set (nodes node). layout nd \<and> keys_increasing nd \<and> ranges_ok nd
      \<and> 1 \<le> node_n nd \<and> node_n nd \<le> 2 * factor"
  shows "\<exists>res cell'. lookup_loop (Some node) elem cell = Inr (res, cell')
    \<and> (elem \<in> set (inorder node) \<longrightarrow>
          (\<exists>c i. res = Some (Elem_ref c i) \<and> c \<in> set (nodes node) \<and> i < node_n c
             \<and> elems c ! i = elem))
    \<and> (elem \<notin> set (inorder node) \<longrightarrow> res = None)"
  using assms
proof (induction node arbitrary: cell rule: nodes.induct)
  case (1 node)
  have here: "layout node" "keys_increasing node" "ranges_ok node"
    "1 \<le> node_n node" "node_n node \<le> 2 * factor"
    using "1.prems" nodes_self [of node] by simp_all
  have lay: "length (elems node) = elems_cap" "length (children node) = children_cap"
    using here(1) by (simp_all add: layout_def)
  have n_es: "node_n node \<le> length (elems node)"
    using lay here(5) by (simp add: elems_cap_def)
  have sorted: "sorted_wrt (<) (keys node)"
    using here(2) by (simp add: keys_increasing_iff)
  from here(4) n_es sorted show ?case
  proof (cases rule: bt_node_bsearch_cases [of node elem])
    case (found i)
    then show ?thesis
      using lookup_loop_found [of node elem i cell] key_in_inorder [of i node] nodes_self [of node]
      by auto
  next
    case (absent p)
    have plen: "p < length (children node)"
      using absent(1) lay here(5) by (simp add: children_cap_def)
    then have at_p: "children node ! p = child_at node p"
      by (simp add: child_at_def)
    let ?L = "left_part (sub_of node) (key_of node) p"
    let ?R = "right_part (sub_of node) (key_of node) p (node_n node)"
    let ?cell = "case cell of None \<Rightarrow> None | Some v \<Rightarrow> Some (Some node)"
    have io: "inorder node = ?L @ sub_of node p @ ?R"
      using absent(1) by (rule inorder_around)
    have "\<forall>a \<in> set ?L. a < elem"
    proof (rule left_part_ranges)
      fix i assume "i < p"
      then show "key_of node i < elem"
        using absent(3) by (simp add: key_of_def)
      from \<open>i < p\<close> absent(1) have "i < node_n node"
        by simp
      with here(3) show "\<forall>k \<in> set (sub_of node i). k < key_of node i"
        by (rule ranges_ok_sub)
    qed
    moreover have "\<forall>b \<in> set ?R. elem < b"
    proof (rule right_part_ranges)
      fix i assume i: "p \<le> i" "i < node_n node"
      then show "elem < key_of node i"
        using absent(4) by (simp add: key_of_def)
      from here(3) i(2) show "\<forall>k \<in> set (sub_of node (Suc i)). key_of node i < k"
        by (rule ranges_ok_sub)
    qed
    ultimately have mem: "elem \<in> set (inorder node) \<longleftrightarrow> elem \<in> set (sub_of node p)"
      using io by auto
    have step: "lookup_loop (Some node) elem cell = lookup_loop (child_at node p) elem ?cell"
      using lookup_loop_absent [OF absent(2) plen, of cell] by (simp add: at_p)
    show ?thesis
    proof (cases "child_at node p")
      case None
      then have "sub_of node p = []"
        by (simp add: sub_of_def inorder_opt_def)
      with mem step None show ?thesis
        by (simp add: lookup_loop_None)
    next
      case (Some child)
      have sub: "sub_of node p = inorder child"
        using Some by (simp add: sub_of_def inorder_opt_def)
      have below: "c \<in> set (nodes node)" if "c \<in> set (nodes child)" for c
        using absent(1) Some that by (rule nodes_child)
      have slot: "p \<in> set [0..<Suc (node_n node)]"
        using absent(1) by (simp del: upt_Suc)
      have sub_inv: "\<forall>nd \<in> set (nodes child). layout nd \<and> keys_increasing nd \<and> ranges_ok nd
          \<and> 1 \<le> node_n nd \<and> node_n nd \<le> 2 * factor"
        using "1.prems" below by blast
      from "1.IH" [OF slot Some sub_inv, of ?cell]
      obtain res cell' where
        rec: "lookup_loop (Some child) elem ?cell = Inr (res, cell')"
        and hit: "elem \<in> set (inorder child) \<longrightarrow>
          (\<exists>c i. res = Some (Elem_ref c i) \<and> c \<in> set (nodes child) \<and> i < node_n c
             \<and> elems c ! i = elem)"
        and miss: "elem \<notin> set (inorder child) \<longrightarrow> res = None"
        by (elim exE conjE) (rule that)
      have "lookup_loop (Some node) elem cell = Inr (res, cell')"
        using step Some rec by simp
      moreover have "elem \<in> set (inorder node) \<longleftrightarrow> elem \<in> set (inorder child)"
        using mem sub by simp
      ultimately show ?thesis
        using hit miss below by blast
    qed
  qed
qed

lemma invariants_nodes:
  assumes "btree_invariants r" and "1 \<le> node_n r" and "nd \<in> set (nodes r)"
  shows "keys_increasing nd \<and> ranges_ok nd \<and> 1 \<le> node_n nd \<and> node_n nd \<le> 2 * factor"
proof -
  have "nd = r \<or> nd \<in> set (tl (nodes r))"
    using assms(3) nodes_head [of r] by (metis set_ConsD)
  then have "1 \<le> node_n nd \<and> node_n nd \<le> 2 * factor"
    using assms(1,2) by (auto simp: btree_invariants_def factor_def)
  then show ?thesis
    using assms(1,3) by (simp add: btree_invariants_def)
qed

lemma shape_nodes_layout:
  assumes "shape lo hi h node"
  shows "\<forall>nd \<in> set (nodes node). layout nd"
  using assms
proof (induction h arbitrary: node lo hi)
  case 0
  then show ?case
    using nodes_leaf [OF 0] shape_layout [OF 0] by simp
next
  case (Suc h)
  show ?case
  proof
    fix nd
    assume "nd \<in> set (nodes node)"
    then have "nd = node \<or> nd \<in> set (tl (nodes node))"
      using nodes_head [of node] by (metis set_ConsD)
    then show "layout nd"
    proof
      assume "nd = node"
      then show ?thesis
        using shape_layout [OF Suc.prems] by simp
    next
      assume "nd \<in> set (tl (nodes node))"
      then obtain i t where i: "i \<le> node_n node" and t: "child_at node i = Some t"
        and nd: "nd \<in> set (nodes t)"
        by (rule in_nodes_inner)
      from shape_inner_child [OF Suc.prems i] t have "shape factor (2 * factor) h t"
        by auto
      from Suc.IH [OF this] nd show ?thesis
        by simp
    qed
  qed
qed

lemma bt_inv_nodes:
  assumes "bt_inv bt"
  shows "case root bt of None \<Rightarrow> True
    | Some r \<Rightarrow> (\<forall>node \<in> set (nodes r). layout node) \<and> btree_invariants r \<and> 1 \<le> node_n r"
proof (cases "root bt")
  case None
  then show ?thesis by simp
next
  case (Some r)
  note shape = bt_inv_rootD [OF assms Some]
  from shape_nodes_layout [OF shape(1)] bt_inv_invariants [OF assms Some] shape_bounds [OF shape(1)]
  show ?thesis
    using Some by simp
qed

text \<open>
  Claim C4, as the program has it. On a tree whose root is absent, or whose root holds at
  least one key and satisfies the invariants (every node having the arrays of its C
  type), \<^verbatim>\<open>bt_lookup\<close> returns a pointer to a key slot of a node of the tree whose element
  compares equal to the key, when the tree stores such an element, and \<^verbatim>\<open>NULL\<close>
  otherwise. On the empty tree of \<^verbatim>\<open>bt_mk\<close> it returns \<^verbatim>\<open>NULL\<close> for every key, without a
  fault.
\<close>

theorem bt_lookup_correct:
  assumes "case root bt of None \<Rightarrow> True
    | Some r \<Rightarrow> (\<forall>node \<in> set (nodes r). layout node) \<and> btree_invariants r \<and> 1 \<le> node_n r"
  shows "((\<exists>k \<in> set (bt_keys bt). bt_default_cmp elem k = 0) \<longrightarrow>
            (\<exists>r. bt_lookup bt elem = Inr (Some r) \<and> ref_node r \<in> set (bt_nodes bt)
               \<and> ref_idx r < node_n (ref_node r) \<and> bt_default_cmp elem (deref r) = 0))
       \<and> (\<not> (\<exists>k \<in> set (bt_keys bt). bt_default_cmp elem k = 0) \<longrightarrow>
            bt_lookup bt elem = Inr None)
       \<and> bt_lookup bt_mk elem = Inr None"
proof -
  have empty: "bt_lookup bt' elem = Inr None" if "root bt' = None" for bt'
    using that by (simp add: bt_lookup_def bt_lookup_node_def lookup_loop_None)
  have stored: "(\<exists>k \<in> set (bt_keys bt). bt_default_cmp elem k = 0) \<longleftrightarrow> elem \<in> set (bt_keys bt)"
    by (auto simp: cmp_eq_iff)
  have "bt_lookup bt_mk elem = Inr None"
    by (rule empty) (simp add: bt_mk_def)
  moreover have "(elem \<in> set (bt_keys bt) \<longrightarrow>
            (\<exists>r. bt_lookup bt elem = Inr (Some r) \<and> ref_node r \<in> set (bt_nodes bt)
               \<and> ref_idx r < node_n (ref_node r) \<and> bt_default_cmp elem (deref r) = 0))
       \<and> (elem \<notin> set (bt_keys bt) \<longrightarrow> bt_lookup bt elem = Inr None)"
  proof (cases "root bt")
    case None
    then show ?thesis
      using empty [of bt] by (simp add: bt_keys_def inorder_opt_def)
  next
    case (Some r)
    with assms have lay: "\<forall>node \<in> set (nodes r). layout node"
      and inv: "btree_invariants r" and n: "1 \<le> node_n r"
      by simp_all
    have "\<forall>nd \<in> set (nodes r). layout nd \<and> keys_increasing nd \<and> ranges_ok nd
        \<and> 1 \<le> node_n nd \<and> node_n nd \<le> 2 * factor"
      using lay invariants_nodes [OF inv n] by blast
    from lookup_loop_ranges [OF this, of elem None]
    obtain res cell' where
      loop: "lookup_loop (Some r) elem None = Inr (res, cell')"
      and hit: "elem \<in> set (inorder r) \<longrightarrow>
          (\<exists>c i. res = Some (Elem_ref c i) \<and> c \<in> set (nodes r) \<and> i < node_n c
             \<and> elems c ! i = elem)"
      and miss: "elem \<notin> set (inorder r) \<longrightarrow> res = None"
      by (elim exE conjE) (rule that)
    have "bt_lookup bt elem = Inr res"
      using Some loop by (simp add: bt_lookup_def bt_lookup_node_def)
    then show ?thesis
      using hit miss Some
      by (auto simp: bt_keys_def bt_nodes_def inorder_opt_def deref_def cmp_eq_iff)
  qed
  ultimately show ?thesis
    unfolding stored by simp
qed

theorem bt_lookup_correct_witness:
  "bt_lookup \<lparr>root = Some (Bnode 1 [10, 0, 0, 0, 0]
               [Some (Bnode 3 [5, 6, 7, 12, 20] [None, None, None, None, None, None]),
                Some (Bnode 4 [12, 17, 20, 30, 0] [None, None, None, None, None, None]),
                None, None, None, None]),
      size_bt = 0\<rparr> 11 = Inr None
   \<and> (\<exists>r. bt_lookup \<lparr>root = Some (Bnode 1 [10, 0, 0, 0, 0]
               [Some (Bnode 3 [5, 6, 7, 12, 20] [None, None, None, None, None, None]),
                Some (Bnode 4 [12, 17, 20, 30, 0] [None, None, None, None, None, None]),
                None, None, None, None]),
      size_bt = 0\<rparr> 6 = Inr (Some r) \<and> deref r = 6)
   \<and> bt_lookup bt_mk 6 = Inr None"
proof -
  let ?r = "Bnode 1 [10, 0, 0, 0, 0]
               [Some (Bnode 3 [5, 6, 7, 12, 20] [None, None, None, None, None, None]),
                Some (Bnode 4 [12, 17, 20, 30, 0] [None, None, None, None, None, None]),
                None, None, None, None]"
  let ?bt = "\<lparr>root = Some ?r, size_bt = 0\<rparr>"
  have "bt_inv ?bt"
    by code_simp
  then have pre: "case root ?bt of None \<Rightarrow> True
    | Some r \<Rightarrow> (\<forall>node \<in> set (nodes r). layout node) \<and> btree_invariants r \<and> 1 \<le> node_n r"
    by (rule bt_inv_nodes)
  have keys: "bt_keys ?bt = [5, 6, 7, 10, 12, 17, 20, 30]"
    by code_simp
  from bt_lookup_correct [OF pre, of 11] bt_lookup_correct [OF pre, of 6]
  show ?thesis
    unfolding keys by (auto simp: bt_default_cmp_def split: if_splits)
qed

text \<open>
  Claim C4 as stated fails on a root that holds no key, which the invariants allow: the
  tree stores nothing, yet the lookup of \<open>0\<close> returns a pointer to the unused slot \<open>0\<close> of
  the root, and the lookup of \<open>1\<close> stops at the failed \<^verbatim>\<open>assert\<close> of
  \<^verbatim>\<open>bt_node_bsearch\<close>.
\<close>

theorem bt_lookup_counterexample:
  "btree_invariants (Bnode 0 [0, 0, 0, 0, 0] [None, None, None, None, None, None])
   \<and> layout (Bnode 0 [0, 0, 0, 0, 0] [None, None, None, None, None, None])
   \<and> bt_keys \<lparr>root = Some (Bnode 0 [0, 0, 0, 0, 0] [None, None, None, None, None, None]),
               size_bt = 0\<rparr> = []
   \<and> bt_lookup \<lparr>root = Some (Bnode 0 [0, 0, 0, 0, 0] [None, None, None, None, None, None]),
                 size_bt = 0\<rparr> 0
     = Inr (Some (Elem_ref (Bnode 0 [0, 0, 0, 0, 0] [None, None, None, None, None, None]) 0))
   \<and> bt_lookup \<lparr>root = Some (Bnode 0 [0, 0, 0, 0, 0] [None, None, None, None, None, None]),
                 size_bt = 0\<rparr> 1
     = Inl Assert_failed"
proof -
  let ?r = "Bnode 0 [0, 0, 0, 0, 0] [None, None, None, None, None, None]"
  let ?bt = "\<lparr>root = Some ?r, size_bt = 0\<rparr>"
  have nodes: "nodes ?r = [?r]"
    by (simp add: nodes.simps [of ?r] child_at_def)
  have depths: "leaf_depths ?r = [0]"
    by (simp add: leaf_depths.simps [of ?r] child_at_def)
  have height: "height ?r = 0"
    by (simp add: height.simps [of ?r] child_at_def)
  have "keys_increasing ?r"
    by (simp add: keys_increasing_def keys_def)
  moreover have "ranges_ok ?r"
    by (simp add: ranges_ok_def)
  ultimately have "btree_invariants ?r"
    by (simp add: btree_invariants_def nodes depths height)
  moreover have "layout ?r"
    by code_simp
  moreover have "bt_keys ?bt = []"
    by code_simp
  moreover have "bt_lookup ?bt 0 = Inr (Some (Elem_ref ?r 0))"
    by code_simp
  moreover have "bt_lookup ?bt 1 = Inl Assert_failed"
    by code_simp
  ultimately show ?thesis
    by simp
qed

section \<open>One pass of the iterator's loop\<close>

lemma loop_null:
  assumes "fp < length (iter_stack iter)" and "frame_node (iter_stack iter ! fp) = None"
  shows "iter_next_loop iter fp v = Inr (None, iter)"
  using assms by (subst iter_next_loop.simps) simp

lemma loop_end:
  assumes "fp < length (iter_stack iter)" and "frame_node (iter_stack iter ! fp) = Some nd"
    and "node_n nd < frame_i (iter_stack iter ! fp)" and "iter_top iter = 1"
  shows "iter_next_loop iter fp v = Inr (None, iter)"
  using assms by (subst iter_next_loop.simps) (simp add: Let_def)

lemma loop_pop:
  assumes "fp < length (iter_stack iter)" and "frame_node (iter_stack iter ! fp) = Some nd"
    and "node_n nd < frame_i (iter_stack iter ! fp)" and "iter_top iter \<noteq> 1" and "fp \<noteq> 0"
  shows "iter_next_loop iter fp v
    = iter_next_loop (iter\<lparr>iter_top := iter_top iter - 1\<rparr>) (fp - 1) True"
  using assms by (subst iter_next_loop.simps) (simp add: Let_def)

lemma loop_push:
  assumes "fp < length (iter_stack iter)" and "frame_node (iter_stack iter ! fp) = Some nd"
    and "\<not> node_n nd < frame_i (iter_stack iter ! fp)"
    and "frame_i (iter_stack iter ! fp) < length (children nd)"
    and "children nd ! frame_i (iter_stack iter ! fp) \<noteq> None" and "\<not> v"
    and "fp + 1 < length (iter_stack iter)"
  shows "iter_next_loop iter fp v
    = iter_next_loop
        (iter\<lparr>iter_top := iter_top iter + 1,
              iter_stack := (iter_stack iter)
                [fp + 1 := Frame 0 (children nd ! frame_i (iter_stack iter ! fp))]\<rparr>)
        (fp + 1) False"
  using assms by (subst iter_next_loop.simps) (simp add: Let_def)

lemma loop_yield:
  assumes "fp < length (iter_stack iter)" and "frame_node (iter_stack iter ! fp) = Some nd"
    and "frame_i (iter_stack iter ! fp) < node_n nd"
    and "frame_i (iter_stack iter ! fp) < length (children nd)"
    and "children nd ! frame_i (iter_stack iter ! fp) = None \<or> v"
  shows "iter_next_loop iter fp v
    = Inr (Some (Elem_ref nd (frame_i (iter_stack iter ! fp))),
           iter\<lparr>iter_stack := (iter_stack iter)
             [fp := Frame (frame_i (iter_stack iter ! fp) + 1) (Some nd)]\<rparr>)"
  using assms by (subst iter_next_loop.simps) (auto simp: Let_def)

lemma loop_skip:
  assumes "fp < length (iter_stack iter)" and "frame_node (iter_stack iter ! fp) = Some nd"
    and "frame_i (iter_stack iter ! fp) = node_n nd"
    and "frame_i (iter_stack iter ! fp) < length (children nd)"
    and "children nd ! frame_i (iter_stack iter ! fp) = None \<or> v"
  shows "iter_next_loop iter fp v
    = iter_next_loop
        (iter\<lparr>iter_stack := (iter_stack iter)
           [fp := Frame (frame_i (iter_stack iter ! fp) + 1) (Some nd)]\<rparr>)
        fp v"
  using assms by (subst iter_next_loop.simps) (auto simp: Let_def)

lemma loop_faults:
  "length (iter_stack iter) \<le> fp \<Longrightarrow> iter_next_loop iter fp v = Inl Out_of_bounds"
  "fp < length (iter_stack iter) \<Longrightarrow> frame_node (iter_stack iter ! fp) = Some nd \<Longrightarrow>
     node_n nd < frame_i (iter_stack iter ! fp) \<Longrightarrow> iter_top iter \<noteq> 1 \<Longrightarrow> fp = 0 \<Longrightarrow>
     iter_next_loop iter fp v = Inl Out_of_bounds"
  "fp < length (iter_stack iter) \<Longrightarrow> frame_node (iter_stack iter ! fp) = Some nd \<Longrightarrow>
     \<not> node_n nd < frame_i (iter_stack iter ! fp) \<Longrightarrow>
     length (children nd) \<le> frame_i (iter_stack iter ! fp) \<Longrightarrow>
     iter_next_loop iter fp v = Inl Out_of_bounds"
  "fp < length (iter_stack iter) \<Longrightarrow> frame_node (iter_stack iter ! fp) = Some nd \<Longrightarrow>
     \<not> node_n nd < frame_i (iter_stack iter ! fp) \<Longrightarrow>
     frame_i (iter_stack iter ! fp) < length (children nd) \<Longrightarrow>
     children nd ! frame_i (iter_stack iter ! fp) \<noteq> None \<Longrightarrow> \<not> v \<Longrightarrow>
     length (iter_stack iter) \<le> fp + 1 \<Longrightarrow>
     iter_next_loop iter fp v = Inl Out_of_bounds"
  by (subst iter_next_loop.simps, simp add: Let_def)+


section \<open>The iterator once it is exhausted\<close>

lemma iter_next_loop_exhausted:
  assumes "iter_next_loop iter fp v = Inr (None, iter')" and "fp + 1 = iter_top iter"
  shows "iter_top iter' \<noteq> 0
    \<and> iter_next_loop iter' (iter_top iter' - 1) False = Inr (None, iter')"
  using assms
proof (induction iter fp v rule: iter_next_loop.induct)
  case (1 iter fp v)
  note run = \<open>iter_next_loop iter fp v = Inr (None, iter')\<close>
  note top = \<open>fp + 1 = iter_top iter\<close>
  let ?i = "frame_i (iter_stack iter ! fp)"
  have fpeq: "iter_top iter - 1 = fp" "iter_top iter \<noteq> 0"
    using top by simp_all
  have inb: "\<not> length (iter_stack iter) \<le> fp"
    using run loop_faults(1) [of iter fp v] by auto
  then have fp: "fp < length (iter_stack iter)"
    by simp
  show ?case
  proof (cases "frame_node (iter_stack iter ! fp)")
    case None
    with run fp have "iter' = iter"
      by (simp add: loop_null)
    with fpeq loop_null [OF fp None, of False] show ?thesis
      by simp
  next
    case (Some nd)
    show ?thesis
    proof (cases "node_n nd < ?i")
      case True
      show ?thesis
      proof (cases "iter_top iter = 1")
        case one: True
        with run have "iter' = iter"
          by (simp add: loop_end [OF fp Some True])
        with fpeq loop_end [OF fp Some True one, of False] show ?thesis
          by simp
      next
        case more: False
        have fp0: "fp \<noteq> 0"
          using top more by auto
        from run have "iter_next_loop (iter\<lparr>iter_top := iter_top iter - 1\<rparr>) (fp - 1) True
            = Inr (None, iter')"
          by (simp add: loop_pop [OF fp Some True more fp0])
        moreover have "fp - 1 + 1 = iter_top (iter\<lparr>iter_top := iter_top iter - 1\<rparr>)"
          using top fp0 by simp
        ultimately show ?thesis
          by (rule "1.IH"(1) [OF inb Some refl True more fp0])
      qed
    next
      case False
      have inb': "\<not> length (children nd) \<le> ?i"
        using run loop_faults(3) [OF fp Some False, of v] by auto
      then have i: "?i < length (children nd)"
        by simp
      show ?thesis
      proof (cases "children nd ! ?i \<noteq> None \<and> \<not> v")
        case push: True
        have room: "\<not> length (iter_stack iter) \<le> fp + 1"
          using run push loop_faults(4) [OF fp Some False i, of v] by auto
        let ?iter = "iter\<lparr>iter_top := iter_top iter + 1,
            iter_stack := (iter_stack iter)[fp + 1 := Frame 0 (children nd ! ?i)]\<rparr>"
        from run push room have "iter_next_loop ?iter (fp + 1) False = Inr (None, iter')"
          by (simp add: loop_push [OF fp Some False i])
        moreover have "fp + 1 + 1 = iter_top ?iter"
          using top by simp
        ultimately show ?thesis
          by (rule "1.IH"(2) [OF inb Some refl False inb' push room])
      next
        case no_push: False
        then have cond: "children nd ! ?i = None \<or> v"
          by simp
        have last: "\<not> ?i < node_n nd"
        proof
          assume less: "?i < node_n nd"
          from run show False
            by (simp add: loop_yield [OF fp Some less i cond])
        qed
        with False have eq: "?i = node_n nd"
          by simp
        let ?iter = "iter\<lparr>iter_stack := (iter_stack iter)[fp := Frame (?i + 1) (Some nd)]\<rparr>"
        from run have "iter_next_loop ?iter fp v = Inr (None, iter')"
          by (simp add: loop_skip [OF fp Some eq i cond])
        moreover have "fp + 1 = iter_top ?iter"
          using top by simp
        ultimately show ?thesis
          by (rule "1.IH"(3) [OF inb Some refl False inb' no_push last])
      qed
    qed
  qed
qed

lemma bt_iter_dfs_next_exhausted:
  assumes "bt_iter_dfs_next iter = Inr (None, iter')"
  shows "bt_iter_dfs_next iter' = Inr (None, iter')"
proof -
  from assms have top: "iter_top iter \<noteq> 0"
    and run: "iter_next_loop iter (iter_top iter - 1) False = Inr (None, iter')"
    by (simp_all add: bt_iter_dfs_next_def split: if_splits)
  from top have "iter_top iter - 1 + 1 = iter_top iter"
    by simp
  from iter_next_loop_exhausted [OF run this] show ?thesis
    by (simp add: bt_iter_dfs_next_def)
qed

lemma iter_nexts_exhausted:
  assumes "bt_iter_dfs_next iter = Inr (None, iter)"
  shows "iter_nexts m iter = Inr (replicate m None, iter)"
  using assms by (induction m) simp_all


lemma iter_nexts_add:
  "iter_nexts (a + b) iter =
     (case iter_nexts a iter of
        Inl e \<Rightarrow> Inl e
      | Inr (rs, iter') \<Rightarrow>
          (case iter_nexts b iter' of
             Inl e \<Rightarrow> Inl e
           | Inr (rs', iter'') \<Rightarrow> Inr (rs @ rs', iter'')))"
  by (induction a arbitrary: iter) (auto split: sum.splits)

lemma bt_iter_dfs_next_empty:
  assumes "root bt = None"
  shows "bt_iter_dfs_next (bt_iter_dfs_mk bt) = Inr (None, bt_iter_dfs_mk bt)"
  using assms
  by (simp add: bt_iter_dfs_next_def bt_iter_dfs_mk_def loop_null iter_stack_size_def)

text \<open>
  Claim C9. Once a call of \<^verbatim>\<open>bt_iter_dfs_next\<close> has returned \<^verbatim>\<open>NULL\<close>, every later call
  on that iterator returns \<^verbatim>\<open>NULL\<close> and leaves the iterator as it is: this holds for
  every iterator state, so for every tree and every number \<open>k\<close> of calls made before on
  the iterator of \<^verbatim>\<open>bt_iter_dfs_mk\<close>. The iterator over the empty tree returns \<^verbatim>\<open>NULL\<close>
  on every call.
\<close>

theorem bt_iter_dfs_next_stays_exhausted:
  "(bt_iter_dfs_next iter = Inr (None, iter') \<longrightarrow>
      iter_nexts m iter' = Inr (replicate m None, iter'))
   \<and> (iter_nexts k (bt_iter_dfs_mk bt) = Inr (rs, iter) \<and> bt_iter_dfs_next iter = Inr (None, iter')
        \<longrightarrow> iter_nexts (k + (1 + m)) (bt_iter_dfs_mk bt) = Inr (rs @ None # replicate m None, iter'))
   \<and> iter_nexts m (bt_iter_dfs_mk bt_mk) = Inr (replicate m None, bt_iter_dfs_mk bt_mk)"
proof (intro conjI impI)
  show later: "iter_nexts m iter' = Inr (replicate m None, iter')"
    if "bt_iter_dfs_next iter = Inr (None, iter')" for iter iter'
    using that by (intro iter_nexts_exhausted bt_iter_dfs_next_exhausted)
  show "iter_nexts (k + (1 + m)) (bt_iter_dfs_mk bt) = Inr (rs @ None # replicate m None, iter')"
    if "iter_nexts k (bt_iter_dfs_mk bt) = Inr (rs, iter) \<and> bt_iter_dfs_next iter = Inr (None, iter')"
    using that later [of iter iter'] by (subst iter_nexts_add) simp
  show "iter_nexts m (bt_iter_dfs_mk bt_mk) = Inr (replicate m None, bt_iter_dfs_mk bt_mk)"
    by (intro iter_nexts_exhausted bt_iter_dfs_next_empty) (simp add: bt_mk_def)
qed

theorem bt_iter_dfs_next_stays_exhausted_witness:
  "bt_iter_dfs_next
     \<lparr>iter_top = 1,
      iter_stack = Frame 1 (Some (Bnode 1 [7, 0, 0, 0, 0] (replicate 6 None)))
        # replicate 31 (Frame 0 None)\<rparr>
   = Inr (None,
     \<lparr>iter_top = 1,
      iter_stack = Frame 2 (Some (Bnode 1 [7, 0, 0, 0, 0] (replicate 6 None)))
        # replicate 31 (Frame 0 None)\<rparr>)
   \<and> iter_nexts 3
     \<lparr>iter_top = 1,
      iter_stack = Frame 2 (Some (Bnode 1 [7, 0, 0, 0, 0] (replicate 6 None)))
        # replicate 31 (Frame 0 None)\<rparr>
   = Inr ([None, None, None],
     \<lparr>iter_top = 1,
      iter_stack = Frame 2 (Some (Bnode 1 [7, 0, 0, 0, 0] (replicate 6 None)))
        # replicate 31 (Frame 0 None)\<rparr>)"
proof -
  let ?it1 = "\<lparr>iter_top = 1,
      iter_stack = Frame 1 (Some (Bnode 1 [7, 0, 0, 0, 0] (replicate 6 None)))
        # replicate 31 (Frame 0 None)\<rparr>"
  let ?it2 = "\<lparr>iter_top = 1,
      iter_stack = Frame 2 (Some (Bnode 1 [7, 0, 0, 0, 0] (replicate 6 None)))
        # replicate 31 (Frame 0 None)\<rparr>"
  have run: "bt_iter_dfs_next ?it1 = Inr (None, ?it2)"
    by code_simp
  from bt_iter_dfs_next_stays_exhausted [of ?it1 ?it2 3] run show ?thesis
    by (simp add: numeral_3_eq_3)
qed

section \<open>The iterator yields the keys in order\<close>

lemma below_frames_update:
  "k \<le> j \<Longrightarrow> below_frames (st[j := x]) k = below_frames st k"
  by (induction k) simp_all

lemma after_frame_simps:
  "after_frame (Frame i (Some nd)) = right_part (sub_of nd) (key_of nd) i (node_n nd)"
  "after_frame (Frame i None) = []"
  by (simp_all add: after_frame_def)

lemma from_frame_simps:
  "i \<le> node_n nd \<Longrightarrow>
     from_frame (Frame i (Some nd)) = sub_of nd i @ right_part (sub_of nd) (key_of nd) i (node_n nd)"
  "node_n nd < i \<Longrightarrow> from_frame (Frame i (Some nd)) = []"
  "from_frame (Frame i None) = []"
  by (simp_all add: from_frame_def)

lemma from_frame_start: "from_frame (Frame 0 (Some nd)) = inorder nd"
  using inorder_around [of 0 nd] by (simp add: from_frame_simps)

lemma frame_collapse: "frame_node fr = Some nd \<Longrightarrow> fr = Frame (frame_i fr) (Some nd)"
  by (cases fr) simp

lemma iter_ok_frame:
  assumes "iter_ok iter fp"
  obtains nd where "frame_node (iter_stack iter ! fp) = Some nd"
    and "shape 1 (2 * factor) (height nd) nd"
    and "fp + height nd < length (iter_stack iter)"
proof -
  from assms have "frame_ok (length (iter_stack iter)) fp (iter_stack iter ! fp)"
    by (simp add: iter_ok_def)
  then show thesis
    using that by (auto simp: frame_ok_def split: option.splits)
qed

lemma iter_ok_advance:
  assumes "iter_ok iter fp" and "frame_node (iter_stack iter ! fp) = Some nd"
  shows "iter_ok (iter\<lparr>iter_stack := (iter_stack iter)[fp := Frame j (Some nd)]\<rparr>) fp"
  using assms
  by (auto simp: iter_ok_def frame_ok_def nth_list_update split: option.splits)

lemma iter_ok_pop:
  assumes "iter_ok iter fp" and "fp \<noteq> 0"
  shows "iter_ok (iter\<lparr>iter_top := iter_top iter - 1\<rparr>) (fp - 1)"
  using assms by (auto simp: iter_ok_def)

lemma iter_ok_push:
  assumes "iter_ok iter fp" and "shape 1 (2 * factor) (height c) c"
    and "fp + 1 + height c < length (iter_stack iter)"
  shows "iter_ok (iter\<lparr>iter_top := iter_top iter + 1,
                      iter_stack := (iter_stack iter)[fp + 1 := Frame 0 (Some c)]\<rparr>) (fp + 1)"
proof -
  have "frame_ok (length (iter_stack iter)) k ((iter_stack iter)[fp + 1 := Frame 0 (Some c)] ! k)"
    if "k \<le> fp + 1" for k
  proof (cases "k = fp + 1")
    case True
    with assms(2,3) show ?thesis
      by (simp add: frame_ok_def)
  next
    case False
    with that assms(1) show ?thesis
      by (simp add: iter_ok_def)
  qed
  then show ?thesis
    using assms(1,3) by (simp add: iter_ok_def)
qed


lemma iter_next_loop_correct:
  assumes "iter_ok iter fp"
  shows "\<exists>res iter'. iter_next_loop iter fp v = Inr (res, iter')
    \<and> iter_ok iter' (iter_top iter' - 1)
    \<and> ((remaining iter fp v = [] \<and> res = None
          \<and> remaining iter' (iter_top iter' - 1) False = [])
       \<or> (\<exists>r. res = Some r
             \<and> remaining iter fp v = deref r # remaining iter' (iter_top iter' - 1) False))"
  using assms
proof (induction iter fp v rule: iter_next_loop.induct)
  case (1 iter fp v)
  note ok = \<open>iter_ok iter fp\<close>
  let ?st = "iter_stack iter"
  let ?i = "frame_i (?st ! fp)"
  from ok have top: "fp + 1 = iter_top iter" and fp: "fp < length ?st"
    by (simp_all add: iter_ok_def)
  then have inb: "\<not> length ?st \<le> fp" and fpeq: "iter_top iter - 1 = fp"
    by simp_all
  from ok obtain nd where nd: "frame_node (?st ! fp) = Some nd"
    and shape: "shape 1 (2 * factor) (height nd) nd"
    and fits: "fp + height nd < length ?st"
    by (rule iter_ok_frame)
  have af: "after_frame (?st ! fp) = right_part (sub_of nd) (key_of nd) ?i (node_n nd)"
    by (simp add: after_frame_def nd)
  have ff: "from_frame (?st ! fp)
      = (if ?i \<le> node_n nd
         then sub_of nd ?i @ right_part (sub_of nd) (key_of nd) ?i (node_n nd) else [])"
    by (simp add: from_frame_def nd)
  have lay: "length (children nd) = children_cap" and n4: "node_n nd \<le> 2 * factor"
    using shape_layout [OF shape] shape_bounds [OF shape] by (simp_all add: layout_def)
  show ?case
  proof (cases "node_n nd < ?i")
    case True
    have rem: "remaining iter fp v = below_frames ?st fp"
      using True by (simp add: remaining_def af ff)
    show ?thesis
    proof (cases "iter_top iter = 1")
      case one: True
      with top have "fp = 0"
        by simp
      then have none_below: "below_frames ?st fp = []"
        by simp
      have "remaining iter fp v = []"
        by (simp add: rem none_below)
      moreover have "remaining iter fp False = []"
        using True by (simp add: remaining_def ff none_below)
      ultimately show ?thesis
        using loop_end [OF fp nd True one, of v] ok fpeq by simp
    next
      case more: False
      with top have fp0: "fp \<noteq> 0"
        by auto
      let ?iter = "iter\<lparr>iter_top := iter_top iter - 1\<rparr>"
      from fp0 obtain q where q: "fp = Suc q"
        by (cases fp) simp_all
      have "remaining ?iter (fp - 1) True = below_frames ?st fp"
        by (simp add: q remaining_def)
      then have "remaining ?iter (fp - 1) True = remaining iter fp v"
        by (simp add: rem)
      moreover have "iter_next_loop iter fp v = iter_next_loop ?iter (fp - 1) True"
        by (rule loop_pop [OF fp nd True more fp0])
      ultimately show ?thesis
        using "1.IH"(1) [OF inb nd refl True more fp0 iter_ok_pop [OF ok fp0]] by simp
    qed
  next
    case False
    then have i_n: "?i \<le> node_n nd"
      by simp
    have i: "?i < length (children nd)"
      using i_n n4 lay by (simp add: children_cap_def)
    then have inb': "\<not> length (children nd) \<le> ?i"
      by simp
    have slot: "child_at nd ?i = children nd ! ?i"
      using i by (simp add: child_at_def)
    show ?thesis
    proof (cases "children nd ! ?i \<noteq> None \<and> \<not> v")
      case push: True
      then obtain c where c: "children nd ! ?i = Some c"
        by auto
      obtain h where h: "height nd = Suc h"
      proof (cases "height nd")
        case 0
        with shape have "child_at nd ?i = None"
          using shape_leaf_child_at [of 1 "2 * factor" nd ?i] by simp
        with slot c show ?thesis
          by simp
      next
        case (Suc h)
        then show ?thesis
          by (rule that)
      qed
      from shape_inner_child [OF shape [unfolded h] i_n] slot c
      have cshape: "shape factor (2 * factor) h c"
        by auto
      then have ch: "height c = h"
        by (rule shape_height)
      have cshape1: "shape 1 (2 * factor) (height c) c"
        using shape_bounds [OF cshape] unfolding ch
        by (intro shape_weaken [OF cshape]) (simp_all add: factor_def)
      have room: "fp + 1 + height c < length ?st"
        using fits h ch by simp
      then have room': "fp + 1 < length ?st" "\<not> length ?st \<le> fp + 1"
        by simp_all
      let ?iter = "iter\<lparr>iter_top := iter_top iter + 1,
          iter_stack := ?st[fp + 1 := Frame 0 (children nd ! ?i)]\<rparr>"
      have ok': "iter_ok ?iter (fp + 1)"
        unfolding c by (rule iter_ok_push [OF ok cshape1 room])
      have "remaining ?iter (fp + 1) False
          = inorder c @ after_frame (?st ! fp) @ below_frames ?st fp"
        using fp room' by (simp add: remaining_def c from_frame_start below_frames_update)
      also have "inorder c = sub_of nd ?i"
        by (simp add: sub_of_def slot c inorder_opt_def)
      finally have "remaining ?iter (fp + 1) False = remaining iter fp v"
        using push i_n by (simp add: remaining_def af ff)
      moreover have "iter_next_loop iter fp v = iter_next_loop ?iter (fp + 1) False"
        using push by (intro loop_push [OF fp nd False i _ _ room'(1)]) simp_all
      ultimately show ?thesis
        using "1.IH"(2) [OF inb nd refl False inb' push room'(2) ok'] by simp
    next
      case no_push: False
      then have cond: "children nd ! ?i = None \<or> v"
        by simp
      have head: "(if v then after_frame (?st ! fp) else from_frame (?st ! fp))
          = right_part (sub_of nd) (key_of nd) ?i (node_n nd)"
      proof (cases v)
        case True
        then show ?thesis
          by (simp add: af)
      next
        case False
        with cond have "sub_of nd ?i = []"
          by (simp add: sub_of_def slot inorder_opt_def)
        with False i_n show ?thesis
          by (simp add: ff)
      qed
      let ?iter = "iter\<lparr>iter_stack := ?st[fp := Frame (?i + 1) (Some nd)]\<rparr>"
      have ok': "iter_ok ?iter fp"
        using ok nd by (rule iter_ok_advance)
      have below': "below_frames (iter_stack ?iter) fp = below_frames ?st fp"
        by (simp add: below_frames_update)
      show ?thesis
      proof (cases "?i < node_n nd")
        case less: True
        have run: "iter_next_loop iter fp v = Inr (Some (Elem_ref nd ?i), ?iter)"
          by (rule loop_yield [OF fp nd less i cond])
        have "remaining iter fp v
            = key_of nd ?i # (sub_of nd (Suc ?i)
                @ right_part (sub_of nd) (key_of nd) (Suc ?i) (node_n nd)) @ below_frames ?st fp"
          using less by (simp add: remaining_def head right_part_Cons)
        moreover have "remaining ?iter fp False
            = (sub_of nd (Suc ?i) @ right_part (sub_of nd) (key_of nd) (Suc ?i) (node_n nd))
              @ below_frames ?st fp"
          using less fp by (simp add: remaining_def below_frames_update from_frame_simps)
        ultimately have "remaining iter fp v
            = deref (Elem_ref nd ?i) # remaining ?iter (iter_top ?iter - 1) False"
          using fpeq by (simp add: deref_def key_of_def)
        with run ok' fpeq show ?thesis
          by simp
      next
        case last: False
        with i_n have eq: "?i = node_n nd"
          by simp
        have "remaining ?iter fp v = remaining iter fp v"
        proof -
          have "remaining iter fp v = below_frames ?st fp"
            using eq by (simp add: remaining_def head)
          moreover have "remaining ?iter fp v = below_frames ?st fp"
            using eq fp
            by (simp add: remaining_def below_frames_update from_frame_simps after_frame_simps)
          ultimately show ?thesis
            by simp
        qed
        moreover have "iter_next_loop iter fp v = iter_next_loop ?iter fp v"
          by (rule loop_skip [OF fp nd eq i cond])
        ultimately show ?thesis
          using "1.IH"(3) [OF inb nd refl False inb' no_push last ok'] by simp
      qed
    qed
  qed
qed

lemma bt_iter_dfs_next_correct:
  assumes "iter_ok iter (iter_top iter - 1)"
  shows "\<exists>res iter'. bt_iter_dfs_next iter = Inr (res, iter')
    \<and> iter_ok iter' (iter_top iter' - 1)
    \<and> ((remaining iter (iter_top iter - 1) False = [] \<and> res = None
          \<and> remaining iter' (iter_top iter' - 1) False = [])
       \<or> (\<exists>r. res = Some r
             \<and> remaining iter (iter_top iter - 1) False
                 = deref r # remaining iter' (iter_top iter' - 1) False))"
proof -
  from assms have "iter_top iter \<noteq> 0"
    by (auto simp: iter_ok_def)
  then have "bt_iter_dfs_next iter = iter_next_loop iter (iter_top iter - 1) False"
    by (simp add: bt_iter_dfs_next_def)
  with iter_next_loop_correct [OF assms, of False] show ?thesis
    by simp
qed

lemma iter_values_0: "iter_values 0 iter = Inr []"
  by (simp add: iter_values_def)

lemma iter_values_Suc:
  "iter_values (Suc k) iter =
     (case bt_iter_dfs_next iter of
        Inl e \<Rightarrow> Inl e
      | Inr (r, iter') \<Rightarrow>
          (case iter_values k iter' of
             Inl e \<Rightarrow> Inl e
           | Inr vs \<Rightarrow> Inr (map_option deref r # vs)))"
  by (simp add: iter_values_def split: sum.splits prod.splits)

lemma iter_values_correct:
  assumes "iter_ok iter (iter_top iter - 1)"
  shows "iter_values k iter
    = Inr (map Some (take k (remaining iter (iter_top iter - 1) False))
           @ replicate (k - length (remaining iter (iter_top iter - 1) False)) None)"
  using assms
proof (induction k arbitrary: iter)
  case 0
  then show ?case
    by (simp add: iter_values_0)
next
  case (Suc k)
  let ?xs = "remaining iter (iter_top iter - 1) False"
  from bt_iter_dfs_next_correct [OF Suc.prems]
  obtain res iter' where
    step: "bt_iter_dfs_next iter = Inr (res, iter')"
    and ok': "iter_ok iter' (iter_top iter' - 1)"
    and out: "(?xs = [] \<and> res = None \<and> remaining iter' (iter_top iter' - 1) False = [])
       \<or> (\<exists>r. res = Some r \<and> ?xs = deref r # remaining iter' (iter_top iter' - 1) False)"
    by (elim exE conjE) (rule that)
  note rest = Suc.IH [OF ok']
  from out show ?case
  proof
    assume "?xs = [] \<and> res = None \<and> remaining iter' (iter_top iter' - 1) False = []"
    then show ?thesis
      using step rest by (simp add: iter_values_Suc)
  next
    assume "\<exists>r. res = Some r \<and> ?xs = deref r # remaining iter' (iter_top iter' - 1) False"
    then obtain r where "res = Some r"
      and "?xs = deref r # remaining iter' (iter_top iter' - 1) False"
      by blast
    then show ?thesis
      using step rest by (simp add: iter_values_Suc)
  qed
qed

lemma iter_values_tree:
  assumes inv: "bt_inv bt"
    and low: "case root bt of None \<Rightarrow> True | Some r \<Rightarrow> height r < iter_stack_size"
  shows "iter_values k (bt_iter_dfs_mk bt)
    = Inr (map Some (take k (bt_keys bt)) @ replicate (k - length (bt_keys bt)) None)"
proof (cases "root bt")
  case None
  from bt_iter_dfs_next_empty [OF None]
  have "iter_nexts k (bt_iter_dfs_mk bt) = Inr (replicate k None, bt_iter_dfs_mk bt)"
    by (rule iter_nexts_exhausted)
  then show ?thesis
    using None by (simp add: iter_values_def bt_keys_def inorder_opt_def)
next
  case (Some r)
  let ?iter = "bt_iter_dfs_mk bt"
  note shape = bt_inv_rootD [OF inv Some]
  have top: "iter_top ?iter - 1 = 0"
    by (simp add: bt_iter_dfs_mk_def)
  have "frame_ok (length (iter_stack ?iter)) 0 (iter_stack ?iter ! 0)"
    using shape(1) low Some
    by (simp add: frame_ok_def bt_iter_dfs_mk_def iter_stack_size_def)
  then have "iter_ok ?iter 0"
    by (simp add: iter_ok_def) (simp add: bt_iter_dfs_mk_def iter_stack_size_def)
  moreover have "remaining ?iter 0 False = bt_keys bt"
    using Some
    by (simp add: remaining_def bt_iter_dfs_mk_def from_frame_start bt_keys_def inorder_opt_def)
  ultimately show ?thesis
    using iter_values_correct [of ?iter k, unfolded top] by simp
qed

section \<open>How many keys a tree of a given height holds\<close>

lemma length_around:
  assumes "\<And>i. i \<le> n \<Longrightarrow> c \<le> length (sub i) + 1"
  shows "(n + 1) * c \<le> length (left_part sub key n @ sub n) + 1"
  using assms
proof (induction n)
  case 0
  then show ?case by simp
next
  case (Suc n)
  have "(n + 1) * c \<le> length (left_part sub key n @ sub n) + 1"
    using Suc.prems by (intro Suc.IH) simp
  moreover have "c \<le> length (sub (Suc n)) + 1"
    using Suc.prems by simp
  ultimately show ?case
    by (simp add: left_part_Suc)
qed

lemma shape_count:
  assumes "shape lo hi h node"
  shows "(lo + 1) * 3 ^ h \<le> length (inorder node) + 1"
  using assms
proof (induction h arbitrary: node lo hi)
  case 0
  have "length (inorder node) = node_n node"
    using shape_leaf_sub_of [OF "0.prems"]
    by (simp add: inorder_eq left_part_def sum_list_triv length_concat comp_def)
  with shape_bounds [OF "0.prems"] show ?case
    by simp
next
  case (Suc h)
  have "3 ^ Suc h \<le> length (sub_of node i) + 1" if "i \<le> node_n node" for i
  proof -
    from shape_inner_child [OF Suc.prems that]
    obtain t where t: "child_at node i = Some t" "shape factor (2 * factor) h t"
      by blast
    from Suc.IH [OF t(2)] show ?thesis
      using t(1) by (simp add: sub_of_def inorder_opt_def factor_def)
  qed
  then have "(node_n node + 1) * 3 ^ Suc h \<le> length (inorder node) + 1"
    unfolding inorder_eq by (rule length_around)
  moreover have "(lo + 1) * 3 ^ Suc h \<le> (node_n node + 1) * 3 ^ Suc h"
    using shape_bounds [OF Suc.prems] by (intro mult_le_mono1) simp
  ultimately show ?case
    by (rule order_trans [rotated])
qed

lemma c_int_keys_length:
  assumes "sorted_wrt (<) xs" and "\<forall>x \<in> set xs. c_int x"
  shows "length xs \<le> 2 ^ 32"
proof -
  have "distinct xs"
    using assms(1) by (simp add: strict_sorted_iff)
  then have "length xs = card (set xs)"
    by (simp add: distinct_card)
  also have "card (set xs) \<le> card {- (2 ^ 31)..<(2 ^ 31 :: int)}"
    using assms(2) by (intro card_mono) (auto simp: c_int_def)
  also have "card {- (2 ^ 31)..<(2 ^ 31 :: int)} = 2 ^ 32"
    by simp
  finally show ?thesis .
qed

lemma height_fits:
  assumes "shape 1 hi h r" and "sorted_wrt (<) (inorder r)" and "\<forall>x \<in> set (inorder r). c_int x"
  shows "h < iter_stack_size"
proof (rule ccontr)
  assume "\<not> h < iter_stack_size"
  then have "(32::nat) \<le> h"
    by (simp add: iter_stack_size_def)
  then have "(3::nat) ^ 32 \<le> 3 ^ h"
    by (intro power_increasing) simp_all
  moreover have "(1 + 1) * 3 ^ h \<le> length (inorder r) + 1"
    using shape_count [OF assms(1)] by simp
  moreover have "length (inorder r) \<le> 2 ^ 32"
    using assms(2,3) by (rule c_int_keys_length)
  ultimately have "2 * (3::nat) ^ 32 \<le> 2 ^ 32 + 1"
    by simp
  then show False
    by simp
qed

section \<open>The in-order sequence holds each stored key once\<close>

lemma concat_map_concat:
  "concat (map g (concat (map f xs))) = concat (map (\<lambda>x. concat (map g (f x))) xs)"
  by (induction xs) simp_all

lemma node_keys_unfold:
  "node_keys node = keys node
     @ concat (map (\<lambda>i. case child_at node i of None \<Rightarrow> [] | Some t \<Rightarrow> node_keys t)
                 [0..<Suc (node_n node)])"
proof -
  have "concat (map keys (case c of None \<Rightarrow> [] | Some t \<Rightarrow> nodes t))
      = (case c of None \<Rightarrow> [] | Some t \<Rightarrow> node_keys t)" for c
    by (cases c) (simp_all add: node_keys_def)
  then show ?thesis
    unfolding node_keys_def [of node] nodes.simps [of node]
    by (simp only: list.map concat.simps concat_map_concat)
qed

lemma mset_around:
  "mset (left_part sub key n @ sub n)
    = mset (map key [0..<n]) + sum_list (map (\<lambda>i. mset (sub i)) [0..<Suc n])"
  by (induction n) (simp_all add: left_part_Suc)

lemma keys_map:
  assumes "node_n node \<le> length (elems node)"
  shows "keys node = map (key_of node) [0..<node_n node]"
  using assms by (intro nth_equalityI) (simp_all add: keys_def key_of_def)

lemma mset_inorder:
  assumes "shape lo hi h node" and "hi \<le> 2 * factor"
  shows "mset (inorder node) = mset (node_keys node)"
  using assms
proof (induction h arbitrary: node lo hi)
  case 0
  have n: "node_n node \<le> length (elems node)"
    using shape_layout [OF "0.prems"(1)] shape_bounds [OF "0.prems"(1)] "0.prems"(2)
    by (simp add: layout_def elems_cap_def)
  have "map (\<lambda>i. mset (sub_of node i)) [0..<Suc (node_n node)]
      = map (\<lambda>i. mset (case child_at node i of None \<Rightarrow> [] | Some t \<Rightarrow> node_keys t))
          [0..<Suc (node_n node)]"
    using shape_leaf_sub_of [OF "0.prems"(1)] shape_leaf_child_at [OF "0.prems"(1)]
    by (intro map_cong) simp_all
  note subs = this
  show ?case
    unfolding inorder_eq mset_around node_keys_unfold [of node] subs
    by (simp add: keys_map [OF n] mset_concat comp_def del: upt_Suc)
next
  case (Suc h)
  have n: "node_n node \<le> length (elems node)"
    using shape_layout [OF Suc.prems(1)] shape_bounds [OF Suc.prems(1)] Suc.prems(2)
    by (simp add: layout_def elems_cap_def)
  have "mset (sub_of node i)
      = mset (case child_at node i of None \<Rightarrow> [] | Some t \<Rightarrow> node_keys t)"
    if "i \<le> node_n node" for i
  proof -
    from shape_inner_child [OF Suc.prems(1) that]
    obtain t where t: "child_at node i = Some t" "shape factor (2 * factor) h t"
      by blast
    from Suc.IH [OF t(2) order_refl] show ?thesis
      using t(1) by (simp add: sub_of_def inorder_opt_def)
  qed
  then have "map (\<lambda>i. mset (sub_of node i)) [0..<Suc (node_n node)]
      = map (\<lambda>i. mset (case child_at node i of None \<Rightarrow> [] | Some t \<Rightarrow> node_keys t))
          [0..<Suc (node_n node)]"
    by (intro map_cong) (auto simp: less_Suc_eq_le)
  note subs = this
  show ?case
    unfolding inorder_eq mset_around node_keys_unfold [of node] subs
    by (simp add: keys_map [OF n] mset_concat comp_def del: upt_Suc)
qed

lemma stored_keys_sorted:
  assumes "bt_inv bt"
  shows "bt_keys bt = sort (stored_keys bt)"
proof (cases "root bt")
  case None
  then show ?thesis
    by (simp add: bt_keys_def stored_keys_def bt_nodes_def inorder_opt_def)
next
  case (Some r)
  note shape = bt_inv_rootD [OF assms Some]
  have "mset (inorder r) = mset (node_keys r)"
    using shape(1) by (rule mset_inorder) simp
  moreover have "sorted (inorder r)"
    using shape(2) by (simp add: strict_sorted_iff)
  ultimately have "sort (node_keys r) = inorder r"
    by (intro properties_for_sort) simp_all
  then show ?thesis
    using Some by (simp add: bt_keys_def stored_keys_def bt_nodes_def inorder_opt_def node_keys_def)
qed

section \<open>Traversal of a tree built by insertions\<close>

lemma reach_height:
  assumes run: "bt_insert_calls bt_mk calls = Inr bt" and ints: "\<forall>call \<in> set calls. c_int (fst call)"
  shows "case root bt of None \<Rightarrow> True | Some r \<Rightarrow> height r < iter_stack_size"
proof (cases "root bt")
  case None
  then show ?thesis by simp
next
  case (Some r)
  note reach = bt_insert_calls_reach [OF run]
  note shape = bt_inv_rootD [OF reach(1) Some]
  have "set (inorder r) = fst ` set calls"
    using reach(3) Some by (simp add: bt_keys_def inorder_opt_def)
  with ints have "\<forall>x \<in> set (inorder r). c_int x"
    by auto
  with shape have "height r < iter_stack_size"
    by (intro height_fits [of "2 * factor"])
  with Some show ?thesis by simp
qed

lemma reach_values:
  assumes run: "bt_insert_calls bt_mk calls = Inr bt" and ints: "\<forall>call \<in> set calls. c_int (fst call)"
  shows "iter_values (length (stored_keys bt) + m) (bt_iter_dfs_mk bt)
      = Inr (map Some (sort (stored_keys bt)) @ replicate m None)"
    and "sorted_wrt (<) (sort (stored_keys bt))"
    and "set (stored_keys bt) = fst ` set calls"
    and "length (stored_keys bt) = card (fst ` set calls)"
proof -
  note reach = bt_insert_calls_reach [OF run]
  have keys: "bt_keys bt = sort (stored_keys bt)"
    using reach(1) by (rule stored_keys_sorted)
  then have len: "length (bt_keys bt) = length (stored_keys bt)"
    by simp
  show "iter_values (length (stored_keys bt) + m) (bt_iter_dfs_mk bt)
      = Inr (map Some (sort (stored_keys bt)) @ replicate m None)"
    using iter_values_tree [OF reach(1) reach_height [OF run ints],
        of "length (stored_keys bt) + m"]
    unfolding len [symmetric] by (simp add: keys)
  have sorted: "sorted_wrt (<) (bt_keys bt)"
    using reach(1) by (cases "root bt") (simp_all add: bt_inv_def bt_keys_def inorder_opt_def)
  then show "sorted_wrt (<) (sort (stored_keys bt))"
    by (simp add: keys)
  show set: "set (stored_keys bt) = fst ` set calls"
    using reach(3) by (simp add: keys)
  have "distinct (bt_keys bt)"
    using sorted by (simp add: strict_sorted_iff)
  then have "length (bt_keys bt) = card (set (bt_keys bt))"
    by (simp add: distinct_card)
  then show "length (stored_keys bt) = card (fst ` set calls)"
    using reach(3) len by simp
qed

text \<open>
  Claim C2. For a tree built by \<^verbatim>\<open>bt_insert\<close> calls from \<^verbatim>\<open>bt_mk\<close> (the elements being
  values of the type \<^verbatim>\<open>int\<close>), the iterator of \<^verbatim>\<open>bt_iter_dfs_mk\<close> yields, call after
  call, the sorted list of the keys stored in the nodes of the tree, each stored key
  once, in strictly ascending order, and then \<^verbatim>\<open>NULL\<close>; no call faults. The stored keys
  are the elements that were inserted.
\<close>

theorem bt_iter_dfs_yields_sorted:
  assumes "bt_insert_calls bt_mk calls = Inr bt" and "\<forall>call \<in> set calls. c_int (fst call)"
  shows "iter_values (length (stored_keys bt) + m) (bt_iter_dfs_mk bt)
      = Inr (map Some (sort (stored_keys bt)) @ replicate m None)
    \<and> sorted_wrt (<) (sort (stored_keys bt))
    \<and> set (stored_keys bt) = fst ` set calls"
  using reach_values(1-3) [OF assms] by simp

theorem bt_iter_dfs_yields_sorted_witness:
  "iter_values 10
     (bt_iter_dfs_mk
        \<lparr>root = Some (Bnode 1 [10, 0, 0, 0, 0]
               [Some (Bnode 3 [5, 6, 7, 12, 20] [None, None, None, None, None, None]),
                Some (Bnode 4 [12, 17, 20, 30, 0] [None, None, None, None, None, None]),
                None, None, None, None]),
         size_bt = 0\<rparr>)
   = Inr [Some 5, Some 6, Some 7, Some 10, Some 12, Some 17, Some 20, Some 30, None, None]"
proof -
  let ?calls = "[(10, None), (20, None), (5, None), (6, None), (12, None), (30, None),
    (7, None), (17::int, None::int option)]"
  let ?bt = "\<lparr>root = Some (Bnode 1 [10, 0, 0, 0, 0]
               [Some (Bnode 3 [5, 6, 7, 12, 20] [None, None, None, None, None, None]),
                Some (Bnode 4 [12, 17, 20, 30, 0] [None, None, None, None, None, None]),
                None, None, None, None]),
      size_bt = 0\<rparr>"
  have run: "bt_insert_calls bt_mk ?calls = Inr ?bt"
    by code_simp
  have ints: "\<forall>call \<in> set ?calls. c_int (fst call)"
    by (simp add: c_int_def)
  have stored: "stored_keys ?bt = [10, 5, 6, 7, 12, 17, 20, 30]"
    by code_simp
  have len: "length [10, 5, 6, 7, 12, 17, 20, 30::int] + 2 = 10"
    by simp
  from bt_iter_dfs_yields_sorted [OF run ints, of 2] show ?thesis
    unfolding stored len by (simp add: numeral_2_eq_2)
qed

text \<open>
  Claim C5, as the program has it. The number of elements that the iterator yields
  before the first \<^verbatim>\<open>NULL\<close> is the number of keys stored in the tree, which is the number
  of distinct elements inserted. It is not the field \<^verbatim>\<open>size\<close>: no function of the program
  assigns it, and it keeps the value \<open>0\<close> that \<^verbatim>\<open>bt_mk\<close> gave it.
\<close>

theorem bt_iter_dfs_count:
  assumes "bt_insert_calls bt_mk calls = Inr bt" and "\<forall>call \<in> set calls. c_int (fst call)"
  shows "iter_values (card (fst ` set calls) + 1) (bt_iter_dfs_mk bt)
      = Inr (map Some (sort (stored_keys bt)) @ [None])
    \<and> length (sort (stored_keys bt)) = card (fst ` set calls)
    \<and> length (stored_keys bt) = card (fst ` set calls)
    \<and> size_bt bt = 0"
  using reach_values(1) [OF assms, of 1] reach_values(4) [OF assms]
    bt_insert_calls_reach(2) [OF assms(1)]
  by simp

theorem bt_iter_dfs_count_witness:
  "iter_values 3
     (bt_iter_dfs_mk
        \<lparr>root = Some (Bnode 2 [3, 7, 0, 0, 0] [None, None, None, None, None, None]),
         size_bt = 0\<rparr>)
   = Inr [Some 3, Some 7, None]"
proof -
  let ?calls = "[(7, None), (3, None), (7::int, Some (0::int))]"
  let ?bt = "\<lparr>root = Some (Bnode 2 [3, 7, 0, 0, 0] [None, None, None, None, None, None]),
         size_bt = 0\<rparr>"
  have run: "bt_insert_calls bt_mk ?calls = Inr ?bt"
    by code_simp
  have ints: "\<forall>call \<in> set ?calls. c_int (fst call)"
    by (simp add: c_int_def)
  have stored: "stored_keys ?bt = [3, 7]"
    by code_simp
  have card: "card (fst ` set ?calls) + 1 = 3"
    by (simp add: card_insert_if)
  from bt_iter_dfs_count [OF run ints] show ?thesis
    unfolding stored card by simp
qed

text \<open>
  Claim C5 as stated fails: after one insertion the iterator yields one element and
  then \<^verbatim>\<open>NULL\<close>, while the field \<^verbatim>\<open>size\<close> is \<open>0\<close>.
\<close>

theorem bt_size_counterexample:
  "bt_insert_calls bt_mk [(7, None)]
     = Inr \<lparr>root = Some (Bnode 1 [7, 0, 0, 0, 0] [None, None, None, None, None, None]),
            size_bt = 0\<rparr>
   \<and> iter_values 2
       (bt_iter_dfs_mk
          \<lparr>root = Some (Bnode 1 [7, 0, 0, 0, 0] [None, None, None, None, None, None]),
           size_bt = 0\<rparr>)
     = Inr [Some 7, None]
   \<and> size_bt \<lparr>root = Some (Bnode 1 [7, 0, 0, 0, 0] [None, None, None, None, None, None]),
              size_bt = 0\<rparr> \<noteq> 1"
  by code_simp

end
